theory Spec2Isabelle
  imports Complex_Main "HOL-Library.Multiset" "HOL-Library.Char_ord" "HOL-Library.Word"
begin

section \<open>JavaScript numbers\<close>

text \<open>
  Every number of the analyzer is a JavaScript Number, an IEEE 754 double. The model keeps
  the real value of a finite number and the three special values the code can produce:
  \<open>NaN\<close> (from \<open>0 / 0\<close>) and the two infinities; zero carries no sign. The
  functions \<open>js_add\<close>, \<open>js_mul\<close>, \<open>js_div\<close> below are the exact operations, and
  \<open>rd\<close> rounds an exact result to the nearest double, so that \<open>a + b\<close> of the source
  is \<open>d_add a b = rd (js_add a b)\<close>.
\<close>

datatype jsnum = Num real | PosInf | NegInf | NaN

text \<open>The largest double is \<open>2^1024 - 2^971\<close>; a number of at least
  \<open>2^1024 - 2^970\<close>, half a step above it, rounds to \<open>2^1024\<close> and so becomes
  infinite.\<close>

definition double_limit :: real where
  "double_limit = 2 ^ 1024 - 2 ^ 970"

definition overflow :: "real \<Rightarrow> jsnum" where
  "overflow r =
     (if double_limit \<le> r then PosInf
      else if r \<le> - double_limit then NegInf
      else Num r)"

fun js_neg :: "jsnum \<Rightarrow> jsnum" where
  "js_neg (Num a) = Num (- a)"
| "js_neg PosInf = NegInf"
| "js_neg NegInf = PosInf"
| "js_neg NaN = NaN"

fun js_add :: "jsnum \<Rightarrow> jsnum \<Rightarrow> jsnum" where
  "js_add (Num a) (Num b) = Num (a + b)"
| "js_add NaN _ = NaN"
| "js_add _ NaN = NaN"
| "js_add PosInf NegInf = NaN"
| "js_add NegInf PosInf = NaN"
| "js_add PosInf _ = PosInf"
| "js_add _ PosInf = PosInf"
| "js_add NegInf _ = NegInf"
| "js_add _ NegInf = NegInf"

definition js_sub :: "jsnum \<Rightarrow> jsnum \<Rightarrow> jsnum" where
  "js_sub a b = js_add a (js_neg b)"

text \<open>The sign of a number that is not NaN, and the infinity of a given sign
  (\<open>Infinity * 0\<close> and \<open>0 / 0\<close> are NaN).\<close>

fun js_sign :: "jsnum \<Rightarrow> real" where
  "js_sign (Num a) = sgn a"
| "js_sign PosInf = 1"
| "js_sign NegInf = - 1"
| "js_sign NaN = 0"

definition signed_inf :: "real \<Rightarrow> jsnum" where
  "signed_inf s = (if 0 < s then PosInf else if s < 0 then NegInf else NaN)"

fun js_mul :: "jsnum \<Rightarrow> jsnum \<Rightarrow> jsnum" where
  "js_mul (Num a) (Num b) = Num (a * b)"
| "js_mul NaN _ = NaN"
| "js_mul _ NaN = NaN"
| "js_mul a b = signed_inf (js_sign a * js_sign b)"

fun js_div :: "jsnum \<Rightarrow> jsnum \<Rightarrow> jsnum" where
  "js_div (Num a) (Num b) = (if b = 0 then signed_inf (sgn a) else Num (a / b))"
| "js_div NaN _ = NaN"
| "js_div _ NaN = NaN"
| "js_div (Num a) _ = Num 0"
| "js_div a (Num b) = signed_inf (js_sign a * (if b < 0 then - 1 else 1))"
| "js_div _ _ = NaN"

text \<open>\<open>a < b\<close> and \<open>a >= b\<close>: every comparison with NaN is false.\<close>

fun js_lt :: "jsnum \<Rightarrow> jsnum \<Rightarrow> bool" where
  "js_lt (Num a) (Num b) = (a < b)"
| "js_lt NaN _ = False"
| "js_lt _ NaN = False"
| "js_lt _ NegInf = False"
| "js_lt NegInf _ = True"
| "js_lt PosInf _ = False"
| "js_lt _ PosInf = True"

definition js_ge :: "jsnum \<Rightarrow> jsnum \<Rightarrow> bool" where
  "js_ge a b = (a \<noteq> NaN \<and> b \<noteq> NaN \<and> \<not> js_lt a b)"

definition Math_min :: "jsnum \<Rightarrow> jsnum \<Rightarrow> jsnum" where
  "Math_min a b = (if a = NaN \<or> b = NaN then NaN else if js_lt b a then b else a)"

definition Math_max :: "jsnum \<Rightarrow> jsnum \<Rightarrow> jsnum" where
  "Math_max a b = (if a = NaN \<or> b = NaN then NaN else if js_lt a b then b else a)"

fun Math_log2 :: "jsnum \<Rightarrow> jsnum" where
  "Math_log2 (Num a) = (if a < 0 then NaN else if a = 0 then NegInf else Num (log 2 a))"
| "Math_log2 PosInf = PosInf"
| "Math_log2 NegInf = NaN"
| "Math_log2 NaN = NaN"

text \<open>\<open>Math.round\<close> is \<open>floor (x + 0.5)\<close>: a tie goes up.\<close>

fun Math_round :: "jsnum \<Rightarrow> jsnum" where
  "Math_round (Num a) = Num (of_int \<lfloor>a + 1 / 2\<rfloor>)"
| "Math_round x = x"

text \<open>
  \<open>Math.pow\<close>, case by case as ECMAScript's \<open>Number::exponentiate\<close> lists them: a NaN
  exponent, a zero exponent, a NaN base, an infinite base, a zero base, an infinite
  exponent, a negative base with a fractional exponent, and at last the power itself.
\<close>

definition is_odd_integer :: "real \<Rightarrow> bool" where
  "is_odd_integer e = (e = of_int \<lfloor>e\<rfloor> \<and> odd \<lfloor>e\<rfloor>)"

fun Math_pow :: "jsnum \<Rightarrow> jsnum \<Rightarrow> jsnum" where
  "Math_pow _ NaN = NaN"
| "Math_pow b (Num e) =
     (if e = 0 then Num 1
      else case b of
        NaN \<Rightarrow> NaN
      | PosInf \<Rightarrow> (if 0 < e then PosInf else Num 0)
      | NegInf \<Rightarrow> (if 0 < e then (if is_odd_integer e then NegInf else PosInf) else Num 0)
      | Num a \<Rightarrow>
          (if a = 0 then (if 0 < e then Num 0 else PosInf)
           else if 0 < a then overflow (a powr e)
           else if e \<noteq> of_int \<lfloor>e\<rfloor> then NaN
           else if is_odd_integer e then overflow (- ((- a) powr e))
           else overflow ((- a) powr e)))"
| "Math_pow b PosInf =
     (case b of
        NaN \<Rightarrow> NaN
      | PosInf \<Rightarrow> PosInf
      | NegInf \<Rightarrow> PosInf
      | Num a \<Rightarrow> (if 1 < \<bar>a\<bar> then PosInf else if \<bar>a\<bar> = 1 then NaN else Num 0))"
| "Math_pow b NegInf =
     (case b of
        NaN \<Rightarrow> NaN
      | PosInf \<Rightarrow> Num 0
      | NegInf \<Rightarrow> Num 0
      | Num a \<Rightarrow> (if 1 < \<bar>a\<bar> then Num 0 else if \<bar>a\<bar> = 1 then NaN else PosInf))"

subsection \<open>Rounding to a double\<close>

text \<open>
  A double has 53 significant bits and an exponent from \<open>-1022\<close> on: two neighbouring
  doubles around \<open>x\<close> are \<open>ulp x = 2 ^ (e - 52)\<close> apart, where \<open>2 ^ e\<close> is the power of
  two at or below \<open>\<bar>x\<bar>\<close> and \<open>e\<close> is \<open>-1022\<close> for the numbers below \<open>2 ^ -1022\<close>.
  The result of an operation is the neighbour nearest to the exact result, the one with
  the even significand at a tie (\<open>round_even\<close>), and infinite when that is \<open>2 ^ 1024\<close>
  or more. A decimal literal of the source denotes the double nearest to it.
\<close>

definition round_even :: "real \<Rightarrow> int" where
  "round_even y =
     (let f = \<lfloor>y\<rfloor>; r = y - of_int f
      in if r < 1 / 2 then f else if 1 / 2 < r then f + 1 else if even f then f else f + 1)"

definition expo :: "real \<Rightarrow> int" where
  "expo x = (if x = 0 then - 1022 else max \<lfloor>log 2 \<bar>x\<bar>\<rfloor> (- 1022))"

definition ulp :: "real \<Rightarrow> real" where
  "ulp x = 2 powr of_int (expo x - 52)"

definition dbl :: "real \<Rightarrow> real" where
  "dbl x = ulp x * of_int (round_even (x / ulp x))"

definition rd :: "jsnum \<Rightarrow> jsnum" where
  "rd a = (case a of Num r \<Rightarrow> overflow (dbl r) | _ \<Rightarrow> a)"

definition d_add :: "jsnum \<Rightarrow> jsnum \<Rightarrow> jsnum" where
  "d_add a b = rd (js_add a b)"

definition d_sub :: "jsnum \<Rightarrow> jsnum \<Rightarrow> jsnum" where
  "d_sub a b = rd (js_sub a b)"

definition d_mul :: "jsnum \<Rightarrow> jsnum \<Rightarrow> jsnum" where
  "d_mul a b = rd (js_mul a b)"

definition d_div :: "jsnum \<Rightarrow> jsnum \<Rightarrow> jsnum" where
  "d_div a b = rd (js_div a b)"

definition lit :: "real \<Rightarrow> jsnum" where
  "lit r = rd (Num r)"

text \<open>
  \<open>Math.log2\<close> and \<open>Math.pow\<close> are implementation-approximated in ECMAScript: the
  language does not fix the double they return. The model takes their exact values (and
  the overflow of \<open>Math.pow\<close>). The Shannon entropy is a sum of terms
  \<open>p * Math.log2(p)\<close>, so the double the code returns for it is not fixed either;
  \<open>calculateShannonEntropy\<close> below is the real number that double approximates, with
  exact operations throughout. Every other computation of the analyzer rounds as the
  source does.
\<close>

section \<open>Strings and regular expressions\<close>

text \<open>
  A JavaScript string is a sequence of UTF-16 code units. The analysis is modelled for
  passwords of characters with code below 256: there a character, a code unit and a code
  point are the same thing, so \<open>password.length\<close>, the string iterator and
  \<open>new Set(password)\<close> all count the elements of the list. The two functions of the
  source that count characters both ways, by code unit and by code point, are given for
  arbitrary strings of code units as well (subsection \<open>Strings of UTF-16 code units\<close>).
\<close>

definition in_range :: "char \<Rightarrow> char \<Rightarrow> char \<Rightarrow> bool" where
  "in_range lo hi c = (lo \<le> c \<and> c \<le> hi)"

definition isDigit :: "char \<Rightarrow> bool" where
  "isDigit c = in_range CHR ''0'' CHR ''9'' c"

definition isLower :: "char \<Rightarrow> bool" where
  "isLower c = in_range CHR ''a'' CHR ''z'' c"

definition isUpper :: "char \<Rightarrow> bool" where
  "isUpper c = in_range CHR ''A'' CHR ''Z'' c"

text \<open>The word characters of \<open>\b\<close>: \<open>[A-Za-z0-9_]\<close>.\<close>

definition isWord :: "char \<Rightarrow> bool" where
  "isWord c = (isLower c \<or> isUpper c \<or> isDigit c \<or> c = CHR ''_'')"

text \<open>Line terminators below 256 (\<open>.\<close> does not match them): LF and CR.\<close>

definition isLineTerminator :: "char \<Rightarrow> bool" where
  "isLineTerminator c = (c = CHR 0x0A \<or> c = CHR 0x0D)"

text \<open>White space below 256, as \<open>trim\<close> removes it: TAB, LF, VT, FF, CR, SP, NBSP.\<close>

definition isWhiteSpace :: "char \<Rightarrow> bool" where
  "isWhiteSpace c = (c \<in> set [CHR 0x09, CHR 0x0A, CHR 0x0B, CHR 0x0C, CHR 0x0D, CHR 0x20, CHR 0xA0])"

definition trim :: "string \<Rightarrow> string" where
  "trim s = rev (dropWhile isWhiteSpace (rev (dropWhile isWhiteSpace s)))"

text \<open>
  Case mapping below 256: the ASCII letters, and the Latin-1 letters \<open>0xC0..0xDE\<close>
  (without the multiplication sign \<open>0xD7\<close>) with their lower-case forms \<open>0xE0..0xFE\<close>
  (without the division sign \<open>0xF7\<close>). The upper-case forms of \<open>0xB5\<close>, \<open>0xDF\<close> and
  \<open>0xFF\<close> lie outside the range or are two characters long, so a case-insensitive
  regular expression leaves them alone.
\<close>

definition shift_char :: "int \<Rightarrow> char \<Rightarrow> char" where
  "shift_char d c = char_of (of_char c + d)"

definition toLowerChar :: "char \<Rightarrow> char" where
  "toLowerChar c =
     (if isUpper c \<or> (in_range (CHR 0xC0) (CHR 0xDE) c \<and> c \<noteq> CHR 0xD7) then shift_char 32 c else c)"

definition toUpperChar :: "char \<Rightarrow> char" where
  "toUpperChar c =
     (if isLower c \<or> (in_range (CHR 0xE0) (CHR 0xFE) c \<and> c \<noteq> CHR 0xF7) then shift_char (- 32) c else c)"

definition toLowerCase :: "string \<Rightarrow> string" where
  "toLowerCase s = map toLowerChar s"

text \<open>
  The regular expressions of the analyzer use character classes, \<open>.\<close>, sequence,
  alternation, \<open>?\<close>, \<open>{n}\<close>, \<open>{n,}\<close>, \<open>\b\<close>, one capturing group and the back-reference
  \<open>\1\<close> to it.
\<close>

datatype regex =
    Eps
  | Cls bool "(char \<times> char) list"
  | Dot
  | Seq regex regex
  | Alt regex regex
  | Opt regex
  | Times nat regex
  | AtLeast nat regex
  | WordB
  | Group regex
  | BackRef

text \<open>A literal character, a literal string, \<open>\d\<close>, and an alternation of several.\<close>

definition Chr :: "char \<Rightarrow> regex" where
  "Chr c = Cls False [(c, c)]"

definition Lit :: "string \<Rightarrow> regex" where
  "Lit s = foldr (\<lambda>c r. Seq (Chr c) r) s Eps"

definition Digit :: regex where
  "Digit = Cls False [(CHR ''0'', CHR ''9'')]"

fun Alts :: "regex list \<Rightarrow> regex" where
  "Alts [] = Eps"
| "Alts [r] = r"
| "Alts (r # rs) = Alt r (Alts rs)"

text \<open>
  A character class holds a character when one of its ranges does; with the flag \<open>i\<close>,
  when one of its members has the same canonical (upper-case) form as the character. Below
  256 the characters with the canonical form of \<open>c\<close> are \<open>c\<close>, its upper-case and its
  lower-case form. A negated class holds the others.
\<close>

definition in_ranges :: "(char \<times> char) list \<Rightarrow> char \<Rightarrow> bool" where
  "in_ranges rs c = (\<exists>(lo, hi) \<in> set rs. in_range lo hi c)"

definition cls_match :: "bool \<Rightarrow> bool \<Rightarrow> (char \<times> char) list \<Rightarrow> char \<Rightarrow> bool" where
  "cls_match ic neg rs c =
     (let hit = (if ic then in_ranges rs c \<or> in_ranges rs (toUpperChar c) \<or> in_ranges rs (toLowerChar c)
                 else in_ranges rs c)
      in if neg then \<not> hit else hit)"

definition canon_eq :: "bool \<Rightarrow> string \<Rightarrow> string \<Rightarrow> bool" where
  "canon_eq ic u v = (if ic then map toUpperChar u = map toUpperChar v else u = v)"

text \<open>
  The matcher is the backtracking matcher of ECMAScript, as a list of successes in the
  order the backtracking tries them. A state is the character before the current
  position (none at the start of the string), the rest of the string and the capture of
  group 1.
\<close>

type_synonym mstate = "char option \<times> string \<times> string option"

definition rest_len :: "mstate \<Rightarrow> nat" where
  "rest_len st = length (fst (snd st))"

fun step_char :: "(char \<Rightarrow> bool) \<Rightarrow> mstate \<Rightarrow> mstate list" where
  "step_char P (pv, [], cp) = []"
| "step_char P (pv, c # cs, cp) = (if P c then [(Some c, cs, cp)] else [])"

definition isWordOpt :: "char option \<Rightarrow> bool" where
  "isWordOpt x = (case x of None \<Rightarrow> False | Some c \<Rightarrow> isWord c)"

definition first_char :: "string \<Rightarrow> char option" where
  "first_char s = (case s of [] \<Rightarrow> None | c # _ \<Rightarrow> Some c)"

text \<open>\<open>r*\<close> after the mandatory iterations of \<open>r{n,}\<close>: greedy, and an iteration that
  consumes nothing is rejected, so the rest of the string bounds the iterations.\<close>

fun star :: "nat \<Rightarrow> (mstate \<Rightarrow> mstate list) \<Rightarrow> mstate \<Rightarrow> mstate list" where
  "star 0 f st = [st]"
| "star (Suc k) f st =
     concat (map (star k f) (filter (\<lambda>st'. rest_len st' < rest_len st) (f st))) @ [st]"

fun ms :: "bool \<Rightarrow> regex \<Rightarrow> mstate \<Rightarrow> mstate list" where
  "ms ic Eps st = [st]"
| "ms ic (Cls neg rs) st = step_char (cls_match ic neg rs) st"
| "ms ic Dot st = step_char (\<lambda>c. \<not> isLineTerminator c) st"
| "ms ic (Seq a b) st = concat (map (ms ic b) (ms ic a st))"
| "ms ic (Alt a b) st = ms ic a st @ ms ic b st"
| "ms ic (Opt a) st = ms ic a st @ [st]"
| "ms ic (Times n a) st = ((\<lambda>sts. concat (map (ms ic a) sts)) ^^ n) [st]"
| "ms ic (AtLeast n a) st =
     concat (map (star (rest_len st) (ms ic a)) (((\<lambda>sts. concat (map (ms ic a) sts)) ^^ n) [st]))"
| "ms ic WordB (pv, s, cp) =
     (if isWordOpt pv \<noteq> isWordOpt (first_char s) then [(pv, s, cp)] else [])"
| "ms ic (Group a) (pv, s, cp) =
     map (\<lambda>(pv', s', _). (pv', s', Some (take (length s - length s') s))) (ms ic a (pv, s, cp))"
| "ms ic BackRef (pv, s, cp) =
     (case cp of
        None \<Rightarrow> [(pv, s, cp)]
      | Some w \<Rightarrow>
          (if length w \<le> length s \<and> canon_eq ic (take (length w) s) w
           then [(if w = [] then pv else Some (last (take (length w) s)), drop (length w) s, cp)]
           else []))"

text \<open>
  A RegExp object: its pattern, the flags \<open>i\<close> and \<open>g\<close>, and \<open>lastIndex\<close>.
  \<open>test\<close> tries the start positions from \<open>lastIndex\<close> on (from 0 without the flag
  \<open>g\<close>) and returns at the first position with a match; with the flag \<open>g\<close> it
  leaves the end of that match in \<open>lastIndex\<close>, or 0 when nothing matched.
\<close>

record regexp =
  pattern :: regex
  ignoreCase :: bool
  global :: bool
  lastIndex :: nat

text \<open>The end index of the first match found from a state on, in a string of
  length \<open>n\<close>.\<close>

fun search :: "bool \<Rightarrow> regex \<Rightarrow> nat \<Rightarrow> char option \<Rightarrow> string \<Rightarrow> nat option" where
  "search ic r n pv s =
     (case ms ic r (pv, s, None) of
        st # _ \<Rightarrow> Some (n - rest_len st)
      | [] \<Rightarrow> (case s of [] \<Rightarrow> None | c # cs \<Rightarrow> search ic r n (Some c) cs))"

definition exec_from :: "regexp \<Rightarrow> nat \<Rightarrow> string \<Rightarrow> nat option" where
  "exec_from re i s =
     (if length s < i then None
      else search (ignoreCase re) (pattern re) (length s)
             (if i = 0 then None else Some (s ! (i - 1))) (drop i s))"

definition RegExp_test :: "regexp \<Rightarrow> string \<Rightarrow> bool \<times> regexp" where
  "RegExp_test re s =
     (case exec_from re (if global re then lastIndex re else 0) s of
        None \<Rightarrow> (False, if global re then re\<lparr>lastIndex := 0\<rparr> else re)
      | Some e \<Rightarrow> (True, if global re then re\<lparr>lastIndex := e\<rparr> else re))"

text \<open>A regular expression literal is a fresh object each time it is evaluated:
  \<open>/r/.test(s)\<close> and \<open>/r/i.test(s)\<close>.\<close>

definition literal :: "regex \<Rightarrow> bool \<Rightarrow> regexp" where
  "literal r ic = \<lparr>pattern = r, ignoreCase = ic, global = False, lastIndex = 0\<rparr>"

definition re_test :: "regex \<Rightarrow> bool \<Rightarrow> string \<Rightarrow> bool" where
  "re_test r ic s = fst (RegExp_test (literal r ic) s)"

section \<open>The analyzer\<close>

text \<open>
  The fields of the \<open>PasswordAnalyzer\<close> object the analysis reads: the set of common
  passwords and the five regular expressions of \<open>commonPatterns\<close> (the fields are named
  \<open>keyboard_re\<close> ... \<open>leet_re\<close> here; \<open>keyboard\<close> ... \<open>leet\<close> are the flags of the result).
  The fields holding elements of the page are not modelled. A group whose capture no
  back-reference reads is written without \<open>Group\<close>.
\<close>

record common_patterns =
  keyboard_re :: regexp
  repeated_re :: regexp
  sequential_re :: regexp
  date_re :: regexp
  leet_re :: regexp

record analyzer =
  commonPasswords :: "string list"
  commonPatterns :: common_patterns

text \<open>
  \<^verbatim>\<open>
  this.commonPasswords = new Set([
      'password', '123456', '123456789', 'qwerty', 'abc123', 'password123',
      'admin', 'letmein', 'welcome', 'monkey', '1234567890', 'dragon']);
  this.commonPatterns = {
      keyboard: /qwerty|asdf|zxcv|1234|abcd/i,
      repeated: /(.)\1{2,}/,
      sequential: /(abc|bcd|cde|def|efg|fgh|ghi|hij|ijk|jkl|klm|lmn|mno|nop|opq|pqr|qrs|rst
                   |stu|tuv|uvw|vwx|wxy|xyz|012|123|234|345|456|567|678|789)/i,
      date: /\b(19|20)\d{2}\b|\b(0?[1-9]|1[0-2])[\/\-](0?[1-9]|[12]\d|3[01])[\/\-](\d{2}|\d{4})\b/,
      leet: /[4@][5$][7!][3e][0o]/i
  };
  \<close>
  (the expression \<open>sequential\<close> is one line in the source).
\<close>

definition keyboard_rx :: regex where
  "keyboard_rx = Alts (map Lit [''qwerty'', ''asdf'', ''zxcv'', ''1234'', ''abcd''])"

definition repeated_rx :: regex where
  "repeated_rx = Seq (Group Dot) (AtLeast 2 BackRef)"

definition sequential_rx :: regex where
  "sequential_rx = Alts (map Lit
     [''abc'', ''bcd'', ''cde'', ''def'', ''efg'', ''fgh'', ''ghi'', ''hij'', ''ijk'', ''jkl'',
      ''klm'', ''lmn'', ''mno'', ''nop'', ''opq'', ''pqr'', ''qrs'', ''rst'', ''stu'', ''tuv'',
      ''uvw'', ''vwx'', ''wxy'', ''xyz'', ''012'', ''123'', ''234'', ''345'', ''456'', ''567'',
      ''678'', ''789''])"

text \<open>The two alternatives of the date expression, without their \<open>\b\<close>:
  \<open>(19|20)\d{2}\<close> and \<open>(0?[1-9]|1[0-2])[\/\-](0?[1-9]|[12]\d|3[01])[\/\-](\d{2}|\d{4})\<close>.\<close>

definition year_rx :: regex where
  "year_rx = Seq (Alt (Lit ''19'') (Lit ''20'')) (Times 2 Digit)"

definition sep_rx :: regex where
  "sep_rx = Cls False [(CHR ''/'', CHR ''/''), (CHR ''-'', CHR ''-'')]"

definition first_rx :: regex where
  "first_rx = Alt (Seq (Opt (Chr CHR ''0'')) (Cls False [(CHR ''1'', CHR ''9'')]))
                  (Seq (Chr CHR ''1'') (Cls False [(CHR ''0'', CHR ''2'')]))"

definition second_rx :: regex where
  "second_rx = Alt (Seq (Opt (Chr CHR ''0'')) (Cls False [(CHR ''1'', CHR ''9'')]))
                (Alt (Seq (Cls False [(CHR ''1'', CHR ''1''), (CHR ''2'', CHR ''2'')]) Digit)
                     (Seq (Chr CHR ''3'') (Cls False [(CHR ''0'', CHR ''0''), (CHR ''1'', CHR ''1'')])))"

definition third_rx :: regex where
  "third_rx = Alt (Times 2 Digit) (Times 4 Digit)"

definition numeric_date_rx :: regex where
  "numeric_date_rx = Seq first_rx (Seq sep_rx (Seq second_rx (Seq sep_rx third_rx)))"

definition date_rx :: regex where
  "date_rx = Alt (Seq WordB (Seq year_rx WordB)) (Seq WordB (Seq numeric_date_rx WordB))"

definition leet_rx :: regex where
  "leet_rx =
     Seq (Cls False [(CHR ''4'', CHR ''4''), (CHR ''@'', CHR ''@'')])
    (Seq (Cls False [(CHR ''5'', CHR ''5''), (CHR ''$'', CHR ''$'')])
    (Seq (Cls False [(CHR ''7'', CHR ''7''), (CHR ''!'', CHR ''!'')])
    (Seq (Cls False [(CHR ''3'', CHR ''3''), (CHR ''e'', CHR ''e'')])
         (Cls False [(CHR ''0'', CHR ''0''), (CHR ''o'', CHR ''o'')]))))"

text \<open>The constructor.\<close>

definition new_PasswordAnalyzer :: analyzer where
  "new_PasswordAnalyzer =
     \<lparr>commonPasswords =
        [''password'', ''123456'', ''123456789'', ''qwerty'', ''abc123'', ''password123'',
         ''admin'', ''letmein'', ''welcome'', ''monkey'', ''1234567890'', ''dragon''],
      commonPatterns =
        \<lparr>keyboard_re = literal keyboard_rx True,
         repeated_re = literal repeated_rx False,
         sequential_re = literal sequential_rx True,
         date_re = literal date_rx False,
         leet_re = literal leet_rx True\<rparr>\<rparr>"

subsection \<open>Entropy\<close>

record entropy_metrics =
  shannon :: jsnum
  nist :: jsnum
  charset :: nat
  uniqueness :: jsnum

text \<open>
  The object \<open>freq\<close>: its keys in insertion order with their counts. \<open>Object.values\<close>
  lists the values of the integer keys first, in ascending order (the keys \<open>0\<close> to \<open>9\<close>
  are the only ones a character can be), then the others in insertion order.
\<close>

text \<open>
  \<^verbatim>\<open>
  calculateShannonEntropy(password) {
      const freq = {};
      for (let char of password) {
          freq[char] = (freq[char] || 0) + 1;
      }
      let entropy = 0;
      const length = password.length;
      for (let count of Object.values(freq)) {
          const p = count / length;
          entropy -= p * Math.log2(p);
      }
      return entropy * length;
  }
  calculateUniqueness(password) {
      const unique = new Set(password).size;
      return (unique / password.length) * 100;
  }
  \<close>
\<close>

fun freq_incr :: "('k \<times> nat) list \<Rightarrow> 'k \<Rightarrow> ('k \<times> nat) list" where
  "freq_incr [] c = [(c, 1)]"
| "freq_incr ((k, v) # fr) c = (if k = c then (k, v + 1) # fr else (k, v) # freq_incr fr c)"

definition Object_values :: "(char \<times> nat) list \<Rightarrow> nat list" where
  "Object_values fr =
     map snd (sort_key fst (filter (\<lambda>kv. isDigit (fst kv)) fr)) @
     map snd (filter (\<lambda>kv. \<not> isDigit (fst kv)) fr)"

definition calculateShannonEntropy :: "string \<Rightarrow> jsnum" where
  "calculateShannonEntropy password =
     (let freq = foldl freq_incr [] password;
          len = length password;
          entropy = foldl (\<lambda>entropy cnt.
                       let p = js_div (Num (real cnt)) (Num (real len))
                       in js_sub entropy (js_mul p (Math_log2 p)))
                     (Num 0) (Object_values freq)
      in js_mul entropy (Num (real len)))"

definition calculateUniqueness :: "string \<Rightarrow> jsnum" where
  "calculateUniqueness password =
     (let unique = length (remdups password)
      in d_mul (d_div (Num (real unique)) (Num (real (length password)))) (Num 100))"

text \<open>
  \<^verbatim>\<open>
  calculateEntropy(password) {
      const length = password.length;
      let charset = 0;
      if (/[a-z]/.test(password)) charset += 26;
      if (/[A-Z]/.test(password)) charset += 26;
      if (/[0-9]/.test(password)) charset += 10;
      if (/[^a-zA-Z0-9]/.test(password)) charset += 32;
      const shannonEntropy = this.calculateShannonEntropy(password);
      const nistEntropy = Math.log2(Math.pow(charset, length));
      return { shannon: shannonEntropy, nist: nistEntropy, charset,
               uniqueness: this.calculateUniqueness(password) };
  }
  \<close>
\<close>

definition calculateEntropy :: "string \<Rightarrow> entropy_metrics" where
  "calculateEntropy password =
     (let len = length password;
          charset = 0;
          charset = (if re_test (Cls False [(CHR ''a'', CHR ''z'')]) False password
                     then charset + 26 else charset);
          charset = (if re_test (Cls False [(CHR ''A'', CHR ''Z'')]) False password
                     then charset + 26 else charset);
          charset = (if re_test (Cls False [(CHR ''0'', CHR ''9'')]) False password
                     then charset + 10 else charset);
          charset = (if re_test (Cls True [(CHR ''a'', CHR ''z''), (CHR ''A'', CHR ''Z''),
                                            (CHR ''0'', CHR ''9'')]) False password
                     then charset + 32 else charset);
          shannonEntropy = calculateShannonEntropy password;
          nistEntropy = Math_log2 (Math_pow (Num (real charset)) (Num (real len)))
      in \<lparr>shannon = shannonEntropy, nist = nistEntropy, charset = charset,
          uniqueness = calculateUniqueness password\<rparr>)"

subsection \<open>Strings of UTF-16 code units\<close>

text \<open>
  \<open>password.length\<close> counts UTF-16 code units. The string iterator behind
  \<^verbatim>\<open>for (let char of password)\<close> and \<^verbatim>\<open>new Set(password)\<close> yields code points: a
  high surrogate (\<open>0xD800\<close> to \<open>0xDBFF\<close>) followed by a low surrogate (\<open>0xDC00\<close> to
  \<open>0xDFFF\<close>) is one code point, a string of two code units, and every other code unit
  is a code point by itself. These strings are the keys of \<open>freq\<close> and the members of
  the set. \<open>units\<close> is a string of characters below 256 as code units.
\<close>

type_synonym code_unit = "16 word"




definition units :: "string \<Rightarrow> code_unit list" where
  "units s = map of_char s"







subsection \<open>Patterns\<close>

text \<open>The flags of \<open>detectPatterns\<close>; the field \<open>count\<close> of the source is \<open>count_true\<close>
  here.\<close>

record pattern_flags =
  keyboard :: bool
  repeated :: bool
  sequential :: bool
  date :: bool
  leet :: bool
  dictionary :: bool
  personal :: bool
  count_true :: nat

text \<open>
  \<^verbatim>\<open>
  detectPatterns(password) {
      const patterns = {
          keyboard: this.commonPatterns.keyboard.test(password),
          repeated: this.commonPatterns.repeated.test(password),
          sequential: this.commonPatterns.sequential.test(password),
          date: this.commonPatterns.date.test(password),
          leet: this.commonPatterns.leet.test(password),
          dictionary: this.commonPasswords.has(password.toLowerCase()),
          personal: this.detectPersonalInfo(password)
      };
      patterns.count = Object.values(patterns).filter(Boolean).length;
      return patterns;
  }
  detectPersonalInfo(password) {
      const personalPatterns = [
          /\b(john|jane|mike|sarah|david|mary|james|lisa)\b/i,
          /\b(admin|user|test|demo)\b/i,
          /\b\d{4}\b/ // Years
      ];
      return personalPatterns.some(pattern => pattern.test(password));
  }
  \<close>
\<close>

definition personalPatterns :: "regexp list" where
  "personalPatterns =
     [literal (Seq WordB (Seq (Alts (map Lit [''john'', ''jane'', ''mike'', ''sarah'', ''david'',
                                               ''mary'', ''james'', ''lisa''])) WordB)) True,
      literal (Seq WordB (Seq (Alts (map Lit [''admin'', ''user'', ''test'', ''demo''])) WordB)) True,
      literal (Seq WordB (Seq (Times 4 Digit) WordB)) False]"

definition detectPersonalInfo :: "string \<Rightarrow> bool" where
  "detectPersonalInfo password = list_ex (\<lambda>re. fst (RegExp_test re password)) personalPatterns"

text \<open>
  \<open>detectPatterns\<close> calls \<open>test\<close> on the five expressions of the object one after the
  other, so it returns the object with the expressions as the calls left them.
  \<open>patterns.count\<close> is computed from the seven flags before it becomes a field itself.
\<close>

definition detectPatterns :: "analyzer \<Rightarrow> string \<Rightarrow> pattern_flags \<times> analyzer" where
  "detectPatterns this password =
     (let cp = commonPatterns this;
          (kb, re1) = RegExp_test (keyboard_re cp) password;
          (rp, re2) = RegExp_test (repeated_re cp) password;
          (sq, re3) = RegExp_test (sequential_re cp) password;
          (dt, re4) = RegExp_test (date_re cp) password;
          (lt, re5) = RegExp_test (leet_re cp) password;
          dict = (toLowerCase password \<in> set (commonPasswords this));
          pers = detectPersonalInfo password;
          cnt = length (filter (\<lambda>b. b) [kb, rp, sq, dt, lt, dict, pers])
      in (\<lparr>keyboard = kb, repeated = rp, sequential = sq, date = dt, leet = lt,
           dictionary = dict, personal = pers, count_true = cnt\<rparr>,
          this\<lparr>commonPatterns := \<lparr>keyboard_re = re1, repeated_re = re2, sequential_re = re3,
                                   date_re = re4, leet_re = re5\<rparr>\<rparr>))"

subsection \<open>Strength\<close>

record strength_result =
  score :: jsnum
  level :: string
  color :: string

text \<open>
  \<^verbatim>\<open>
  calculateStrength(password, entropy, patterns) {
      let score = 0;
      score += Math.min(password.length / 20, 1) * 0.25;
      score += Math.min(entropy.shannon / 50, 1) * 0.30;
      const diversity = entropy.charset / 94; // Max possible charset
      score += diversity * 0.15;
      score += (entropy.uniqueness / 100) * 0.10;
      score += Math.min(entropy.nist / 60, 1) * 0.10;
      score += 0.10;
      const patternPenalty = patterns.count * 0.08;
      score = Math.max(0, score - patternPenalty);
      if (patterns.dictionary) {
          score *= 0.3;
      }
      const level = this.getStrengthLevel(score);
      return { score, level, color: this.getStrengthColor(level) };
  }
  getStrengthLevel(score) {
      if (score >= 0.8) return 'Very Strong';
      if (score >= 0.6) return 'Strong';
      if (score >= 0.4) return 'Moderate';
      if (score >= 0.2) return 'Weak';
      return 'Very Weak';
  }
  \<close>
\<close>

definition getStrengthLevel :: "jsnum \<Rightarrow> string" where
  "getStrengthLevel sc =
     (if js_ge sc (lit (8 / 10)) then ''Very Strong''
      else if js_ge sc (lit (6 / 10)) then ''Strong''
      else if js_ge sc (lit (4 / 10)) then ''Moderate''
      else if js_ge sc (lit (2 / 10)) then ''Weak''
      else ''Very Weak'')"

definition getStrengthColor :: "string \<Rightarrow> string" where
  "getStrengthColor lv =
     (if lv = ''Very Strong'' then ''#2ed573''
      else if lv = ''Strong'' then ''#5352ed''
      else if lv = ''Moderate'' then ''#f1c40f''
      else if lv = ''Weak'' then ''#ffa502''
      else ''#ff4757'')"

text \<open>The password enters the score by its length only.\<close>

definition calculateStrength :: "'a list \<Rightarrow> entropy_metrics \<Rightarrow> pattern_flags \<Rightarrow> strength_result" where
  "calculateStrength password entropy patterns =
     (let sc = Num 0;
          sc = d_add sc (d_mul (Math_min (d_div (Num (real (length password))) (Num 20)) (Num 1))
                               (lit (25 / 100)));
          sc = d_add sc (d_mul (Math_min (d_div (shannon entropy) (Num 50)) (Num 1))
                               (lit (30 / 100)));
          diversity = d_div (Num (real (charset entropy))) (Num 94);
          sc = d_add sc (d_mul diversity (lit (15 / 100)));
          sc = d_add sc (d_mul (d_div (uniqueness entropy) (Num 100)) (lit (10 / 100)));
          sc = d_add sc (d_mul (Math_min (d_div (nist entropy) (Num 60)) (Num 1))
                               (lit (10 / 100)));
          sc = d_add sc (lit (10 / 100));
          patternPenalty = d_mul (Num (real (count_true patterns))) (lit (8 / 100));
          sc = Math_max (Num 0) (d_sub sc patternPenalty);
          sc = (if dictionary patterns then d_mul sc (lit (3 / 10)) else sc);
          lv = getStrengthLevel sc
      in \<lparr>score = sc, level = lv, color = getStrengthColor lv\<rparr>)"

subsection \<open>Crack times\<close>

text \<open>A formatted time: \<open>'Instant'\<close>, or the template \<open>`${n} unit`\<close> kept as the
  number \<open>n\<close> and the unit (the decimal rendering of \<open>n\<close> is not modelled).\<close>

text \<open>
  \<^verbatim>\<open>
  estimateCrackTimes(password, entropy) {
      const guesses = Math.pow(2, entropy.shannon / 2);
      return {
          online: this.formatTime(guesses / 1000), // 1000 guesses/sec
          offline_cpu: this.formatTime(guesses / 1000000), // 1M guesses/sec
          offline_gpu: this.formatTime(guesses / 1000000000) // 1B guesses/sec
      };
  }
  formatTime(seconds) {
      if (seconds < 1) return 'Instant';
      if (seconds < 60) return `${Math.round(seconds)} seconds`;
      if (seconds < 3600) return `${Math.round(seconds / 60)} minutes`;
      if (seconds < 86400) return `${Math.round(seconds / 3600)} hours`;
      if (seconds < 31536000) return `${Math.round(seconds / 86400)} days`;
      return `${Math.round(seconds / 31536000)} years`;
  }
  \<close>
\<close>

datatype time_string = Instant | Templ jsnum string

record crack_times =
  online :: time_string
  offline_cpu :: time_string
  offline_gpu :: time_string

definition formatTime :: "jsnum \<Rightarrow> time_string" where
  "formatTime seconds =
     (if js_lt seconds (Num 1) then Instant
      else if js_lt seconds (Num 60) then Templ (Math_round seconds) ''seconds''
      else if js_lt seconds (Num 3600) then Templ (Math_round (d_div seconds (Num 60))) ''minutes''
      else if js_lt seconds (Num 86400) then Templ (Math_round (d_div seconds (Num 3600))) ''hours''
      else if js_lt seconds (Num 31536000)
        then Templ (Math_round (d_div seconds (Num 86400))) ''days''
      else Templ (Math_round (d_div seconds (Num 31536000))) ''years'')"

definition estimateCrackTimes :: "'a list \<Rightarrow> entropy_metrics \<Rightarrow> crack_times" where
  "estimateCrackTimes password entropy =
     (let guesses = Math_pow (Num 2) (d_div (shannon entropy) (Num 2))
      in \<lparr>online = formatTime (d_div guesses (Num 1000)),
          offline_cpu = formatTime (d_div guesses (Num 1000000)),
          offline_gpu = formatTime (d_div guesses (Num 1000000000))\<rparr>)"

subsection \<open>Recommendations and issues\<close>

text \<open>\<open>push\<close> under a condition.\<close>

text \<open>
  \<open>generateRecommendations\<close> and \<open>identifySecurityIssues\<close> start from an empty array
  and are a sequence of statements of the form
  \<^verbatim>\<open>if (password.length < 12) { recommendations.push('Increase password length ...'); }\<close>
  in the order of the definitions below; the last statement of the first is
  \<^verbatim>\<open>if (recommendations.length === 0) { recommendations.push('Excellent password! ...'); }\<close>
\<close>

definition push_if :: "bool \<Rightarrow> 'a \<Rightarrow> 'a list \<Rightarrow> 'a list" where
  "push_if b x xs = (if b then xs @ [x] else xs)"

definition generateRecommendations ::
    "string \<Rightarrow> pattern_flags \<Rightarrow> strength_result \<Rightarrow> string list" where
  "generateRecommendations password patterns strength =
     (let rs = [];
          rs = push_if (length password < 12)
                 ''Increase password length to at least 12 characters'' rs;
          rs = push_if (\<not> re_test (Cls False [(CHR ''a'', CHR ''z'')]) False password)
                 ''Add lowercase letters'' rs;
          rs = push_if (\<not> re_test (Cls False [(CHR ''A'', CHR ''Z'')]) False password)
                 ''Add uppercase letters'' rs;
          rs = push_if (\<not> re_test (Cls False [(CHR ''0'', CHR ''9'')]) False password)
                 ''Add numbers'' rs;
          rs = push_if (\<not> re_test (Cls True [(CHR ''a'', CHR ''z''), (CHR ''A'', CHR ''Z''),
                                               (CHR ''0'', CHR ''9'')]) False password)
                 ''Add special characters (!@#$%^&*)'' rs;
          rs = push_if (repeated patterns) ''Avoid repeated characters'' rs;
          rs = push_if (sequential patterns) ''Avoid sequential patterns'' rs;
          rs = push_if (keyboard patterns) ''Avoid keyboard patterns'' rs;
          rs = push_if (dictionary patterns) ''Avoid common dictionary words'' rs;
          rs = push_if (date patterns) ''Avoid dates and years'' rs;
          rs = push_if (length rs = 0) ''Excellent password! Consider using a password manager'' rs
      in rs)"

record issue =
  severity :: string
  message :: string

definition identifySecurityIssues :: "string \<Rightarrow> pattern_flags \<Rightarrow> issue list" where
  "identifySecurityIssues password patterns =
     (let issues = [];
          issues = push_if (dictionary patterns)
                     \<lparr>severity = ''high'', message = ''Password found in common password lists''\<rparr> issues;
          issues = push_if (length password < 8)
                     \<lparr>severity = ''high'',
                      message = ''Password is too short (less than 8 characters)''\<rparr> issues;
          issues = push_if (repeated patterns)
                     \<lparr>severity = ''medium'', message = ''Contains repeated character sequences''\<rparr> issues;
          issues = push_if (keyboard patterns)
                     \<lparr>severity = ''medium'', message = ''Contains keyboard patterns''\<rparr> issues;
          issues = push_if (personal patterns)
                     \<lparr>severity = ''medium'', message = ''May contain personal information''\<rparr> issues;
          issues = push_if (\<not> re_test (Cls True [(CHR ''a'', CHR ''z''), (CHR ''A'', CHR ''Z''),
                                                   (CHR ''0'', CHR ''9'')]) False password)
                     \<lparr>severity = ''low'', message = ''No special characters used''\<rparr> issues
      in issues)"

subsection \<open>The analysis\<close>

text \<open>The report of \<open>performAnalysis\<close>; its field \<open>score\<close>, the integer shown, is
  \<open>score_shown\<close> here (\<open>score\<close> is the field of \<open>strength\<close>).\<close>

text \<open>
  \<^verbatim>\<open>
  performAnalysis(password) {
      const entropy = this.calculateEntropy(password);
      const patterns = this.detectPatterns(password);
      const strength = this.calculateStrength(password, entropy, patterns);
      const crackTimes = this.estimateCrackTimes(password, entropy);
      const recommendations = this.generateRecommendations(password, patterns, strength);
      const securityIssues = this.identifySecurityIssues(password, patterns);
      return { entropy, patterns, strength, crackTimes, recommendations, securityIssues,
               score: Math.round(strength.score * 100) };
  }
  async analyzePassword() {
      const password = this.passwordInput.value.trim();
      if (!password) {
          alert('Please enter a password to analyze');
          return;
      }
      ...
          const analysis = this.performAnalysis(password);
          this.displayResults(analysis, password);
      ...
  }
  \<close>
\<close>

record report =
  entropy :: entropy_metrics
  patterns :: pattern_flags
  strength :: strength_result
  crackTimes :: crack_times
  recommendations :: "string list"
  securityIssues :: "issue list"
  score_shown :: jsnum

definition performAnalysis :: "analyzer \<Rightarrow> string \<Rightarrow> report \<times> analyzer" where
  "performAnalysis this password =
     (let entropy = calculateEntropy password;
          (patterns, this) = detectPatterns this password;
          strength = calculateStrength password entropy patterns;
          crackTimes = estimateCrackTimes password entropy;
          recommendations = generateRecommendations password patterns strength;
          securityIssues = identifySecurityIssues password patterns
      in (\<lparr>entropy = entropy, patterns = patterns, strength = strength, crackTimes = crackTimes,
           recommendations = recommendations, securityIssues = securityIssues,
           score_shown = Math_round (d_mul (score strength) (Num 100))\<rparr>,
          this))"

text \<open>
  \<open>analyzePassword\<close>, the handler of the button: it trims the input, refuses an empty
  password with an alert, and otherwise runs the analysis and shows its report. Nothing
  in \<open>performAnalysis\<close> throws, so the \<open>catch\<close> branch is never taken; the delay and
  the spinner are not modelled.
\<close>

datatype outcome = Alert string | Displayed report

definition analyzePassword :: "analyzer \<Rightarrow> string \<Rightarrow> outcome \<times> analyzer" where
  "analyzePassword this input =
     (let password = trim input
      in if password = [] then (Alert ''Please enter a password to analyze'', this)
         else (let (analysis, this) = performAnalysis this password
               in (Displayed analysis, this)))"

section \<open>Specification\<close>

text \<open>
  The quantities the specification speaks about, as functions of the password alone,
  and the notions the proofs below use to read the matcher.
\<close>

text \<open>The count a frequency table holds for a character.\<close>

definition fr_count :: "('k \<times> nat) list \<Rightarrow> 'k \<Rightarrow> nat" where
  "fr_count fr c = (case map_of fr c of None \<Rightarrow> 0 | Some v \<Rightarrow> v)"

text \<open>
  The Shannon entropy of the specification: with \<open>p(c) = count(c) / length\<close>, the sum
  of \<open>- p(c) * log2 (p(c))\<close> over the distinct characters, times the length.
\<close>

definition char_prob :: "string \<Rightarrow> char \<Rightarrow> real" where
  "char_prob p c = real (count_list p c) / real (length p)"

definition shannon_bits :: "string \<Rightarrow> real" where
  "shannon_bits p = (- (\<Sum>c\<in>set p. char_prob p c * log 2 (char_prob p c))) * real (length p)"

text \<open>
  A regular expression is found in a string when it matches at some position: after a
  prefix \<open>pre\<close>, with the last character of \<open>pre\<close> before the position.
\<close>

definition last_char :: "char option \<Rightarrow> string \<Rightarrow> char option" where
  "last_char pv pre = (if pre = [] then pv else Some (last pre))"

definition matches_at :: "bool \<Rightarrow> regex \<Rightarrow> char option \<Rightarrow> string \<Rightarrow> bool" where
  "matches_at ic r pv s = (ms ic r (pv, s, None) \<noteq> [])"

definition found :: "bool \<Rightarrow> regex \<Rightarrow> string \<Rightarrow> bool" where
  "found ic r s = (\<exists>pre post. s = pre @ post \<and> matches_at ic r (last_char None pre) post)"

text \<open>The character set size of the specification: 26 for a lower-case letter, 26 for
  an upper-case letter, 10 for a digit and 32 for any other character, each counted once
  when the password has such a character.\<close>

definition other_char :: "char \<Rightarrow> bool" where
  "other_char c = (\<not> isLower c \<and> \<not> isUpper c \<and> \<not> isDigit c)"

definition charset_size :: "string \<Rightarrow> nat" where
  "charset_size p =
     (if list_ex isLower p then 26 else 0) + (if list_ex isUpper p then 26 else 0) +
     (if list_ex isDigit p then 10 else 0) + (if list_ex other_char p then 32 else 0)"

text \<open>
  The score of the specification: the subtotal of the six terms, the pattern penalty and
  the dictionary factor, over the metrics and flags the engine computed. \<open>spec_subtotal\<close>
  and \<open>spec_final\<close> read the formula in the arithmetic of the program: every operation
  rounds to a double and the six terms are added from left to right.
\<close>

definition spec_subtotal :: "nat \<Rightarrow> jsnum \<Rightarrow> nat \<Rightarrow> jsnum \<Rightarrow> jsnum \<Rightarrow> jsnum" where
  "spec_subtotal len sh cs u ni =
     d_add (d_add (d_add (d_add (d_add
       (d_mul (Math_min (d_div (Num (real len)) (Num 20)) (Num 1)) (lit (25 / 100)))
       (d_mul (Math_min (d_div sh (Num 50)) (Num 1)) (lit (30 / 100))))
       (d_mul (d_div (Num (real cs)) (Num 94)) (lit (15 / 100))))
       (d_mul (d_div u (Num 100)) (lit (10 / 100))))
       (d_mul (Math_min (d_div ni (Num 60)) (Num 1)) (lit (10 / 100))))
       (lit (10 / 100))"

definition spec_final :: "jsnum \<Rightarrow> nat \<Rightarrow> bool \<Rightarrow> jsnum" where
  "spec_final S cnt dict =
     (let S' = Math_max (Num 0) (d_sub S (d_mul (Num (real cnt)) (lit (8 / 100))))
      in if dict then d_mul S' (lit (3 / 10)) else S')"

text \<open>
  The same formula read over the reals, without any rounding. \<open>nist_part\<close> is
  \<open>min(nistEntropy / 60, 1)\<close>, which is 1 for an infinite \<open>nistEntropy\<close>.
\<close>

definition nist_part :: "jsnum \<Rightarrow> real" where
  "nist_part n = (case n of Num x \<Rightarrow> min (x / 60) 1 | _ \<Rightarrow> 1)"

definition real_subtotal :: "nat \<Rightarrow> real \<Rightarrow> nat \<Rightarrow> real \<Rightarrow> real \<Rightarrow> real" where
  "real_subtotal len sh cs u np =
     min (real len / 20) 1 * (25 / 100) + min (sh / 50) 1 * (30 / 100) +
     (real cs / 94) * (15 / 100) + (u / 100) * (10 / 100) + np * (10 / 100) + 10 / 100"

definition real_final :: "real \<Rightarrow> nat \<Rightarrow> bool \<Rightarrow> real" where
  "real_final S cnt dict =
     (let S' = max 0 (S - real cnt * (8 / 100)) in if dict then S' * (3 / 10) else S')"


text \<open>
  The recommendations as a table in priority order: each line is a condition and the
  advice it triggers. The list is the advice of the lines whose condition holds, or the
  one message of praise when there is none. \<open>pick\<close> is the list of an element under a
  condition.
\<close>

definition advice_table :: "string \<Rightarrow> pattern_flags \<Rightarrow> (bool \<times> string) list" where
  "advice_table password f =
     [(length password < 12, ''Increase password length to at least 12 characters''),
      (\<not> list_ex isLower password, ''Add lowercase letters''),
      (\<not> list_ex isUpper password, ''Add uppercase letters''),
      (\<not> list_ex isDigit password, ''Add numbers''),
      (\<not> list_ex other_char password, ''Add special characters (!@#$%^&*)''),
      (repeated f, ''Avoid repeated characters''),
      (sequential f, ''Avoid sequential patterns''),
      (keyboard f, ''Avoid keyboard patterns''),
      (dictionary f, ''Avoid common dictionary words''),
      (date f, ''Avoid dates and years'')]"

definition spec_recommendations :: "string \<Rightarrow> pattern_flags \<Rightarrow> string list" where
  "spec_recommendations password f =
     (let advice = map snd (filter fst (advice_table password f))
      in if advice = [] then [''Excellent password! Consider using a password manager'']
         else advice)"

definition pick :: "bool \<Rightarrow> 'a \<Rightarrow> 'a list" where
  "pick b x = (if b then [x] else [])"

text \<open>An analyzer object keeps no state between two analyses when none of its five
  regular expressions has the flag \<open>g\<close>.\<close>

definition stateless :: "analyzer \<Rightarrow> bool" where
  "stateless this =
     (let cp = commonPatterns this
      in \<not> global (keyboard_re cp) \<and> \<not> global (repeated_re cp) \<and> \<not> global (sequential_re cp) \<and>
         \<not> global (date_re cp) \<and> \<not> global (leet_re cp))"

text \<open>
  The words of a regular expression without assertions, groups and back-references: the
  strings it consumes, whatever stands before and after. \<open>reach\<close> are the states the
  matcher is in after consuming a word of a set, and \<open>bnd\<close> is the assertion \<open>\b\<close>.
\<close>

fun plain :: "regex \<Rightarrow> bool" where
  "plain Eps = True"
| "plain (Cls neg rs) = True"
| "plain (Seq a b) = (plain a \<and> plain b)"
| "plain (Alt a b) = (plain a \<and> plain b)"
| "plain (Opt a) = plain a"
| "plain (Times n a) = plain a"
| "plain _ = False"

definition conc :: "string set \<Rightarrow> string set \<Rightarrow> string set" where
  "conc A B = {u @ v | u v. u \<in> A \<and> v \<in> B}"

fun lang_pow :: "nat \<Rightarrow> string set \<Rightarrow> string set" where
  "lang_pow 0 L = {[]}"
| "lang_pow (Suc n) L = conc (lang_pow n L) L"

fun lang :: "regex \<Rightarrow> string set" where
  "lang Eps = {[]}"
| "lang (Cls neg rs) = {[c] | c. cls_match False neg rs c}"
| "lang (Seq a b) = conc (lang a) (lang b)"
| "lang (Alt a b) = lang a \<union> lang b"
| "lang (Opt a) = lang a \<union> {[]}"
| "lang (Times n a) = lang_pow n (lang a)"
| "lang _ = {}"

definition reach :: "string set \<Rightarrow> mstate \<Rightarrow> mstate set" where
  "reach L st = (case st of (pv, s, cp) \<Rightarrow> {(last_char pv w, t, cp) | w t. s = w @ t \<and> w \<in> L})"

definition bnd :: "char option \<Rightarrow> string \<Rightarrow> bool" where
  "bnd pv s = (isWordOpt pv \<noteq> isWordOpt (first_char s))"

text \<open>
  Dates as the specification describes them. A year is a word of four digits between
  1900 and 2099. A numeric pattern is two fields of one or two digits and a year of two
  or four digits, separated by \<open>/\<close> or \<open>-\<close>; the fields are numbers from 1 up to a
  bound each (12 for a month, 31 for a day). A date is standalone when no word character
  stands directly before or after it. \<open>date_like 12 31\<close> reads the pattern as
  month, day, year; \<open>date_like 31 12\<close> as day, month, year.
\<close>

definition digits :: "string \<Rightarrow> bool" where
  "digits w = list_all isDigit w"

definition digit_value :: "char \<Rightarrow> nat" where
  "digit_value c = of_char c - 48"

definition number_of :: "string \<Rightarrow> nat" where
  "number_of w = foldl (\<lambda>n c. 10 * n + digit_value c) 0 w"

definition year_word :: "string \<Rightarrow> bool" where
  "year_word w = (digits w \<and> length w = 4 \<and> 1900 \<le> number_of w \<and> number_of w \<le> 2099)"

definition field :: "nat \<Rightarrow> string \<Rightarrow> bool" where
  "field hi w = (digits w \<and> (length w = 1 \<or> length w = 2) \<and> 1 \<le> number_of w \<and> number_of w \<le> hi)"

definition is_sep :: "char \<Rightarrow> bool" where
  "is_sep c = (c = CHR ''/'' \<or> c = CHR ''-'')"

definition numeric_pattern :: "nat \<Rightarrow> nat \<Rightarrow> string \<Rightarrow> bool" where
  "numeric_pattern hi1 hi2 w =
     (\<exists>a s1 b s2 y. w = a @ [s1] @ b @ [s2] @ y \<and> field hi1 a \<and> is_sep s1 \<and> field hi2 b \<and>
        is_sep s2 \<and> digits y \<and> (length y = 2 \<or> length y = 4))"

definition standalone :: "string \<Rightarrow> string \<Rightarrow> bool" where
  "standalone pre post = (\<not> isWordOpt (last_char None pre) \<and> \<not> isWordOpt (first_char post))"

definition date_like :: "nat \<Rightarrow> nat \<Rightarrow> string \<Rightarrow> bool" where
  "date_like hi1 hi2 p =
     (\<exists>pre w post. p = pre @ w @ post \<and> (year_word w \<or> numeric_pattern hi1 hi2 w) \<and>
        standalone pre post)"

section \<open>Lemmas\<close>

subsection \<open>Rounding\<close>

text \<open>Rounding to the nearest double is monotone and leaves a double as it is.\<close>

lemma round_even_cases: "round_even y = \<lfloor>y\<rfloor> \<or> round_even y = \<lfloor>y\<rfloor> + 1"
  by (simp add: round_even_def Let_def)

lemma round_even_of_int: "round_even (of_int n) = n"
  by (simp add: round_even_def Let_def)

lemma round_even_mono:
  assumes "y \<le> z" shows "round_even y \<le> round_even z"
proof (cases "\<lfloor>y\<rfloor> = \<lfloor>z\<rfloor>")
  case True
  then show ?thesis using assms by (auto simp add: round_even_def Let_def)
next
  case False
  then have "\<lfloor>y\<rfloor> < \<lfloor>z\<rfloor>" using assms floor_mono [of y z] by linarith
  moreover have "round_even y \<le> \<lfloor>y\<rfloor> + 1" using round_even_cases [of y] by linarith
  moreover have "\<lfloor>z\<rfloor> \<le> round_even z" using round_even_cases [of z] by linarith
  ultimately show ?thesis by linarith
qed

lemma round_even_ge: "of_int n \<le> y \<Longrightarrow> n \<le> round_even y"
  using round_even_mono [of "of_int n" y] by (simp add: round_even_of_int)

lemma round_even_le: "y \<le> of_int n \<Longrightarrow> round_even y \<le> n"
  using round_even_mono [of y "of_int n"] by (simp add: round_even_of_int)

lemma round_even_near:
  assumes "\<bar>y - of_int n\<bar> < 1 / 2" shows "round_even y = n"
proof (cases "of_int n \<le> y")
  case True
  then have "\<lfloor>y\<rfloor> = n" using assms by (intro floor_unique) linarith+
  then show ?thesis using assms True by (simp add: round_even_def Let_def)
next
  case False
  then have "\<lfloor>y\<rfloor> = n - 1" using assms by (intro floor_unique) simp_all
  then show ?thesis using assms False by (simp add: round_even_def Let_def)
qed

lemma round_even_tie: "y = of_int n + 1 / 2 \<Longrightarrow> round_even y = (if even n then n else n + 1)"
proof -
  assume y: "y = of_int n + 1 / 2"
  have "\<lfloor>y\<rfloor> = n" unfolding y by linarith
  then show ?thesis unfolding round_even_def Let_def using y by simp
qed

lemma ulp_pos: "0 < ulp x"
  by (simp add: ulp_def)

lemma expo_ge: "- 1022 \<le> expo x"
  by (simp add: expo_def)

lemma expo_upper: "x \<noteq> 0 \<Longrightarrow> \<bar>x\<bar> < 2 powr of_int (expo x + 1)"
proof -
  assume "x \<noteq> 0"
  then have pos: "0 < \<bar>x\<bar>" by simp
  have "\<bar>x\<bar> < 2 powr of_int (\<lfloor>log 2 \<bar>x\<bar>\<rfloor> + 1)"
    using floor_log_eq_powr_iff [of "\<bar>x\<bar>" 2 "\<lfloor>log 2 \<bar>x\<bar>\<rfloor>"] pos by simp
  also have "\<dots> \<le> 2 powr of_int (expo x + 1)"
    using \<open>x \<noteq> 0\<close> by (intro powr_mono) (simp_all add: expo_def)
  finally show ?thesis .
qed

lemma expo_lower: "- 1022 < expo x \<Longrightarrow> 2 powr of_int (expo x) \<le> \<bar>x\<bar>"
proof -
  assume a: "- 1022 < expo x"
  then have "x \<noteq> 0" by (auto simp add: expo_def)
  with a have e: "expo x = \<lfloor>log 2 \<bar>x\<bar>\<rfloor>" by (simp add: expo_def max_def split: if_splits)
  have pos: "0 < \<bar>x\<bar>" using \<open>x \<noteq> 0\<close> by simp
  show ?thesis unfolding e
    using floor_log_eq_powr_iff [of "\<bar>x\<bar>" 2 "\<lfloor>log 2 \<bar>x\<bar>\<rfloor>"] pos by simp
qed

lemma expo_mono: "0 < x \<Longrightarrow> x \<le> y \<Longrightarrow> expo x \<le> expo y"
proof -
  assume a: "0 < x" "x \<le> y"
  then have "log 2 \<bar>x\<bar> \<le> log 2 \<bar>y\<bar>" by simp
  then have "\<lfloor>log 2 \<bar>x\<bar>\<rfloor> \<le> \<lfloor>log 2 \<bar>y\<bar>\<rfloor>" by (rule floor_mono)
  then show ?thesis using a by (simp add: expo_def)
qed

lemma expo_eqI:
  "2 powr of_int e \<le> \<bar>x\<bar> \<Longrightarrow> \<bar>x\<bar> < 2 powr of_int (e + 1) \<Longrightarrow> - 1022 \<le> e \<Longrightarrow> expo x = e"
proof -
  assume a: "2 powr of_int e \<le> \<bar>x\<bar>" "\<bar>x\<bar> < 2 powr of_int (e + 1)" "- 1022 \<le> e"
  have "0 < 2 powr real_of_int e" by simp
  then have pos: "0 < \<bar>x\<bar>" using a(1) by linarith
  have "\<lfloor>log 2 \<bar>x\<bar>\<rfloor> = e"
    using floor_log_eq_powr_iff [of "\<bar>x\<bar>" 2 e] pos a by simp
  then show ?thesis using a(3) pos by (simp add: expo_def)
qed

lemma dbl_0: "dbl 0 = 0"
  by (simp add: dbl_def round_even_def)

lemma dbl_nonneg: "0 \<le> x \<Longrightarrow> 0 \<le> dbl x"
proof -
  assume "0 \<le> x"
  then have "of_int 0 \<le> x / ulp x" using ulp_pos [of x] by simp
  then have "0 \<le> round_even (x / ulp x)" by (rule round_even_ge)
  then show ?thesis unfolding dbl_def using ulp_pos [of x] by simp
qed

lemma dbl_nonpos: "x \<le> 0 \<Longrightarrow> dbl x \<le> 0"
proof -
  assume "x \<le> 0"
  then have "x / ulp x \<le> of_int 0" using ulp_pos [of x] by (simp add: divide_le_0_iff)
  then have "round_even (x / ulp x) \<le> 0" by (rule round_even_le)
  then show ?thesis unfolding dbl_def using ulp_pos [of x] by (simp add: mult_le_0_iff)
qed

text \<open>A positive number and its rounded value lie in the same binade, ends included.\<close>

lemma two_powr_split: "(2::real) powr of_int (e + 1) = ulp_e * 2 ^ 53" if "ulp_e = 2 powr real_of_int (e - 52)"
proof -
  have "real_of_int (e + 1) = of_int (e - 52) + 53" by simp
  then have "(2::real) powr of_int (e + 1) = 2 powr (of_int (e - 52) + 53)" by (simp only:)
  also have "\<dots> = 2 powr of_int (e - 52) * 2 powr 53" by (rule powr_add)
  finally show ?thesis using that by simp
qed

lemma dbl_le_binade: "0 < x \<Longrightarrow> dbl x \<le> 2 powr of_int (expo x + 1)"
proof -
  assume x: "0 < x"
  have s: "2 powr of_int (expo x + 1) = ulp x * 2 ^ 53"
    by (rule two_powr_split) (simp add: ulp_def)
  have "x < ulp x * 2 ^ 53" using expo_upper [of x] x s by simp
  then have "x / ulp x \<le> of_int (2 ^ 53)" using ulp_pos [of x] by (simp add: field_simps)
  then have "round_even (x / ulp x) \<le> 2 ^ 53" by (rule round_even_le)
  then have "real_of_int (round_even (x / ulp x)) \<le> real_of_int (2 ^ 53)"
    by (simp only: of_int_le_iff)
  then have "real_of_int (round_even (x / ulp x)) \<le> 2 ^ 53" by simp
  then show ?thesis unfolding s dbl_def using ulp_pos [of x] by simp
qed

lemma two_powr_split': "(2::real) powr of_int e = ulp_e * 2 ^ 52" if "ulp_e = 2 powr real_of_int (e - 52)"
proof -
  have "real_of_int e = of_int (e - 52) + 52" by simp
  then have "(2::real) powr of_int e = 2 powr (of_int (e - 52) + 52)" by (simp only:)
  also have "\<dots> = 2 powr of_int (e - 52) * 2 powr 52" by (rule powr_add)
  finally show ?thesis using that by simp
qed

lemma dbl_ge_binade: "0 < x \<Longrightarrow> - 1022 < expo x \<Longrightarrow> 2 powr of_int (expo x) \<le> dbl x"
proof -
  assume x: "0 < x" and n: "- 1022 < expo x"
  have s: "2 powr of_int (expo x) = ulp x * 2 ^ 52"
    by (rule two_powr_split') (simp add: ulp_def)
  have "ulp x * 2 ^ 52 \<le> x" using expo_lower [OF n] x s by simp
  then have "of_int (2 ^ 52) \<le> x / ulp x" using ulp_pos [of x] by (simp add: field_simps)
  then have "2 ^ 52 \<le> round_even (x / ulp x)" by (rule round_even_ge)
  then have "real_of_int (2 ^ 52) \<le> real_of_int (round_even (x / ulp x))"
    by (simp only: of_int_le_iff)
  then have "2 ^ 52 \<le> real_of_int (round_even (x / ulp x))" by simp
  then show ?thesis unfolding s dbl_def using ulp_pos [of x] by simp
qed

lemma dbl_mono_pos:
  assumes "0 < x" "x \<le> y" shows "dbl x \<le> dbl y"
proof (cases "expo x = expo y")
  case True
  then have u: "ulp x = ulp y" by (simp add: ulp_def)
  have "x / ulp y \<le> y / ulp y" using assms ulp_pos [of y] by (simp add: divide_right_mono)
  then have "round_even (x / ulp y) \<le> round_even (y / ulp y)" by (rule round_even_mono)
  then show ?thesis unfolding dbl_def u using ulp_pos [of y] by simp
next
  case False
  then have lt: "expo x < expo y" using expo_mono [OF assms] by simp
  have "dbl x \<le> 2 powr of_int (expo x + 1)" using assms by (intro dbl_le_binade)
  also have "\<dots> \<le> 2 powr of_int (expo y)" using lt by (intro powr_mono) simp_all
  also have "\<dots> \<le> dbl y" using assms lt expo_ge [of x] by (intro dbl_ge_binade) simp_all
  finally show ?thesis .
qed

lemma dbl_mono: "x \<le> y \<Longrightarrow> 0 \<le> y \<Longrightarrow> dbl x \<le> dbl y"
proof -
  assume a: "x \<le> y" "0 \<le> y"
  show ?thesis
  proof (cases "0 < x")
    case True then show ?thesis using a by (intro dbl_mono_pos)
  next
    case False
    then have "dbl x \<le> 0" by (intro dbl_nonpos) simp
    moreover have "0 \<le> dbl y" using a by (intro dbl_nonneg)
    ultimately show ?thesis by linarith
  qed
qed

text \<open>The rounded value of a number whose binade is known, for evaluation.\<close>

lemma dbl_eval:
  assumes "2 powr of_int e \<le> \<bar>x\<bar>" "\<bar>x\<bar> < 2 powr of_int (e + 1)" "- 1022 \<le> e"
  shows "dbl x = 2 powr of_int (e - 52) * of_int (round_even (x / 2 powr of_int (e - 52)))"
  using expo_eqI [OF assms] by (simp add: dbl_def ulp_def)

lemma dbl_near:
  assumes "2 powr of_int e \<le> \<bar>x\<bar>" "\<bar>x\<bar> < 2 powr of_int (e + 1)" "- 1022 \<le> e"
    and "\<bar>x / 2 powr of_int (e - 52) - of_int n\<bar> < 1 / 2"
  shows "dbl x = 2 powr of_int (e - 52) * of_int n"
  using dbl_eval [OF assms(1-3)] round_even_near [OF assms(4)] by simp

lemma dbl_1: "dbl 1 = 1"
  using dbl_near [of 0 1 "2 ^ 52"] by (simp add: powr_minus field_simps)

lemma dbl_100: "dbl 100 = 100"
  using dbl_near [of 6 100 "100 * 2 ^ 46"] by (simp add: powr_minus field_simps)

lemma dbl_c30: "dbl (3 / 10) = 5404319552844595 / 2 ^ 54"
  using dbl_near [of "- 2" "3 / 10" 5404319552844595] by (simp add: powr_minus field_simps)

lemma dbl_multiple: "d = ulp d * of_int m \<Longrightarrow> dbl d = d"
proof -
  assume a: "d = ulp d * of_int m"
  have "d / ulp d = of_int m" using ulp_pos [of d] by (subst a) simp
  then show ?thesis unfolding dbl_def using a by (simp add: round_even_of_int)
qed

lemma expo_small: "\<bar>x\<bar> < 2 powr (- 1021) \<Longrightarrow> expo x = - 1022"
proof (cases "x = 0")
  case True
  then show ?thesis by (simp add: expo_def)
next
  case False
  assume a: "\<bar>x\<bar> < 2 powr (- 1021)"
  have "log 2 \<bar>x\<bar> < log 2 (2 powr (- 1021))" using a False by (subst log_less_cancel_iff) simp_all
  then have "log 2 \<bar>x\<bar> < of_int (- 1021)" by simp
  then have "\<lfloor>log 2 \<bar>x\<bar>\<rfloor> < - 1021" by (simp only: floor_less_iff)
  then show ?thesis by (simp add: expo_def)
qed

lemma dbl_dbl:
  assumes "0 \<le> x" shows "dbl (dbl x) = dbl x"
proof (cases "x = 0")
  case True
  then show ?thesis by (simp add: dbl_0)
next
  case False
  then have x: "0 < x" using assms by simp
  define e where "e = expo x"
  define q where "q = ulp x"
  define n where "n = round_even (x / q)"
  have q: "q = 2 powr of_int (e - 52)" "0 < q" by (simp_all add: q_def e_def ulp_def)
  have d: "dbl x = q * of_int n" by (simp add: dbl_def q_def n_def)
  have up: "2 powr of_int (e + 1) = q * 2 ^ 53" using q(1) by (rule two_powr_split)
  have lo: "2 powr of_int e = q * 2 ^ 52" using q(1) by (rule two_powr_split')
  have "x < q * 2 ^ 53" using expo_upper [of x] x up by (simp add: e_def)
  then have "x / q \<le> of_int (2 ^ 53)" using q(2) by (simp add: field_simps)
  then have n53: "n \<le> 2 ^ 53" unfolding n_def by (rule round_even_le)
  have "of_int 0 \<le> x / q" using x q(2) by simp
  then have n0: "0 \<le> n" unfolding n_def by (rule round_even_ge)
  consider "n = 0" | "0 < n" "n < 2 ^ 53" | "n = 2 ^ 53" using n0 n53 by linarith
  then show ?thesis
  proof cases
    case 1
    then show ?thesis by (simp add: d dbl_0)
  next
    case 2
    have rn: "0 < real_of_int n" "real_of_int n < 2 ^ 53"
      using 2 by (simp, metis of_int_less_iff of_int_numeral of_int_power)
    have dpos: "0 < q * of_int n" using rn q(2) by simp
    have dlt: "q * of_int n < 2 powr of_int (e + 1)" unfolding up using rn q(2) by simp
    have "expo (q * of_int n) = e"
    proof (cases "- 1022 < e")
      case True
      have "of_int (2 ^ 52) \<le> x / q"
        using expo_lower [of x] True x lo q(2) by (simp add: e_def field_simps)
      then have "2 ^ 52 \<le> n" unfolding n_def by (rule round_even_ge)
      then have "real_of_int (2 ^ 52) \<le> real_of_int n" by (simp only: of_int_le_iff)
      then have "2 powr of_int e \<le> q * of_int n" unfolding lo using q(2) by simp
      then show ?thesis using dlt dpos True by (intro expo_eqI) simp_all
    next
      case False
      then have e: "e = - 1022" using expo_ge [of x] by (simp add: e_def)
      have "\<bar>q * of_int n\<bar> < 2 powr (- 1021)" using dlt dpos by (simp add: e)
      then show ?thesis unfolding e by (rule expo_small)
    qed
    then have "ulp (q * of_int n) = q" by (simp add: ulp_def q(1))
    then have "dbl (q * of_int n) = q * of_int n" by (intro dbl_multiple [of _ n]) simp
    then show ?thesis by (simp add: d)
  next
    case 3
    have dv: "q * of_int n = 2 powr of_int (e + 1)" unfolding up by (simp add: 3)
    have lt: "2 powr real_of_int (e + 1) < 2 powr real_of_int (e + 1 + 1)"
      by (rule powr_less_mono) simp_all
    have "expo (2 powr of_int (e + 1)) = e + 1"
      using lt expo_ge [of x] by (intro expo_eqI) (simp_all add: e_def)
    then have u: "ulp (2 powr of_int (e + 1)) = 2 powr of_int (e + 1 - 52)" by (simp add: ulp_def)
    have "(2::real) powr of_int (e + 1) = 2 powr of_int (e + 1 - 52) * 2 ^ 52"
      by (rule two_powr_split') simp
    then have "2 powr of_int (e + 1) = ulp (2 powr of_int (e + 1)) * of_int (2 ^ 52)"
      unfolding u by simp
    then have "dbl (2 powr of_int (e + 1)) = 2 powr of_int (e + 1)" by (rule dbl_multiple)
    then show ?thesis by (simp add: d dv)
  qed
qed

lemma dbl_tie:
  assumes "2 powr of_int e \<le> \<bar>x\<bar>" "\<bar>x\<bar> < 2 powr of_int (e + 1)" "- 1022 \<le> e"
    and "x / 2 powr of_int (e - 52) = of_int n + 1 / 2"
  shows "dbl x = 2 powr of_int (e - 52) * of_int (if even n then n else n + 1)"
  using dbl_eval [OF assms(1-3)] round_even_tie [OF assms(4)] by simp

lemma dbl_c15: "dbl (3 / 20) = 5404319552844595 / 2 ^ 55"
  using dbl_near [of "- 3" "15 / 100" 5404319552844595] by (simp add: powr_minus field_simps)

lemma dbl_c10: "dbl (1 / 10) = 3602879701896397 / 2 ^ 55"
  using dbl_near [of "- 4" "10 / 100" 7205759403792794] by (simp add: powr_minus field_simps)

lemma dbl_c08: "dbl (2 / 25) = 5764607523034235 / 2 ^ 56"
  using dbl_near [of "- 4" "8 / 100" 5764607523034235] by (simp add: powr_minus field_simps)

lemma dbl_c25: "dbl (1 / 4) = 1 / 4"
  using dbl_near [of "- 2" "25 / 100" "2 ^ 52"] by (simp add: powr_minus field_simps)

lemma sum2: "dbl (1 / 4 + 5404319552844595 / 2 ^ 54) = 2476979795053773 / 2 ^ 52"
  using dbl_tie [of "- 1" "1 / 4 + 5404319552844595 / 2 ^ 54" 4953959590107545]
  by (simp add: powr_minus field_simps)

lemma sum3: "dbl (2476979795053773 / 2 ^ 52 + 5404319552844595 / 2 ^ 55) = 6305039478318695 / 2 ^ 53"
  using dbl_near [of "- 1" "2476979795053773 / 2 ^ 52 + 5404319552844595 / 2 ^ 55" 6305039478318695]
  by (simp add: powr_minus field_simps)

lemma sum4: "dbl (6305039478318695 / 2 ^ 53 + 3602879701896397 / 2 ^ 55) = 3602879701896397 / 2 ^ 52"
  using dbl_near [of "- 1" "6305039478318695 / 2 ^ 53 + 3602879701896397 / 2 ^ 55" 7205759403792794]
  by (simp add: powr_minus field_simps)

lemma sum5: "dbl (3602879701896397 / 2 ^ 52 + 3602879701896397 / 2 ^ 55) = 8106479329266893 / 2 ^ 53"
  using dbl_near [of "- 1" "3602879701896397 / 2 ^ 52 + 3602879701896397 / 2 ^ 55" 8106479329266893]
  by (simp add: powr_minus field_simps)

lemma sum6: "dbl (8106479329266893 / 2 ^ 53 + 3602879701896397 / 2 ^ 55) = 1"
  using dbl_near [of 0 "8106479329266893 / 2 ^ 53 + 3602879701896397 / 2 ^ 55" "2 ^ 52"]
  by (simp add: powr_minus field_simps)

text \<open>The rounded operations on numbers that stay in range.\<close>

lemma double_limit_big: "100 < double_limit"
  by (simp add: double_limit_def)

lemma overflow_Num: "\<bar>r\<bar> < double_limit \<Longrightarrow> overflow r = Num r"
  by (auto simp: overflow_def)

lemma overflow_nonneg: "0 \<le> r \<Longrightarrow> overflow r = PosInf \<or> overflow r = Num r"
  using double_limit_big by (auto simp: overflow_def)

lemma overflow_le: "r \<le> 100 \<Longrightarrow> overflow r = NegInf \<or> overflow r = Num r"
  using double_limit_big by (auto simp: overflow_def)

lemma dbl_le_100: "r \<le> 100 \<Longrightarrow> dbl r \<le> 100"
  using dbl_mono [of r 100] by (simp add: dbl_100)

lemma dbl_le_1: "r \<le> 1 \<Longrightarrow> dbl r \<le> 1"
  using dbl_mono [of r 1] by (simp add: dbl_1)

lemma rd_small: "0 \<le> r \<Longrightarrow> r \<le> 100 \<Longrightarrow> rd (Num r) = Num (dbl r)"
proof -
  assume a: "0 \<le> r" "r \<le> 100"
  have "0 \<le> dbl r" "dbl r \<le> 100" using a by (simp_all add: dbl_nonneg dbl_le_100)
  then have "\<bar>dbl r\<bar> < double_limit" using double_limit_big by simp
  then show ?thesis by (simp add: rd_def overflow_Num)
qed

lemma rd_nonneg: "0 \<le> r \<Longrightarrow> rd (Num r) = PosInf \<or> rd (Num r) = Num (dbl r)"
  using overflow_nonneg [OF dbl_nonneg, of r] by (simp add: rd_def)

lemma lit_small: "0 \<le> w \<Longrightarrow> w \<le> 100 \<Longrightarrow> lit w = Num (dbl w)"
  by (simp add: lit_def rd_small)

lemma min_one:
  assumes "a = PosInf \<or> (\<exists>d. a = Num d \<and> 0 \<le> d)" and "0 < c"
  shows "\<exists>m. Math_min (d_div a (Num c)) (Num 1) = Num m \<and> 0 \<le> m \<and> m \<le> 1"
proof -
  have "d_div a (Num c) = PosInf \<or> (\<exists>q. d_div a (Num c) = Num q \<and> 0 \<le> q)"
  proof (cases "a = PosInf")
    case True
    then show ?thesis using assms(2) by (simp add: d_div_def signed_inf_def rd_def)
  next
    case False
    then obtain d where d: "a = Num d" "0 \<le> d" using assms(1) by auto
    have "0 \<le> d / c" using d(2) assms(2) by simp
    then show ?thesis
      using rd_nonneg [of "d / c"] dbl_nonneg [of "d / c"] assms(2) by (auto simp: d_div_def d(1))
  qed
  then show ?thesis by (auto simp: Math_min_def)
qed

lemma weight:
  assumes "0 \<le> m" "m \<le> 1" "0 \<le> w" "w \<le> 1"
  shows "\<exists>t. d_mul (Num m) (lit w) = Num t \<and> 0 \<le> t \<and> t \<le> dbl w"
proof -
  have w: "0 \<le> dbl w" "dbl w \<le> 1" using assms by (simp_all add: dbl_nonneg dbl_le_1)
  have l: "lit w = Num (dbl w)" using assms by (simp add: lit_small)
  have p: "0 \<le> m * dbl w" "m * dbl w \<le> dbl w" using assms w by (simp_all add: mult_left_le_one_le)
  then have "d_mul (Num m) (lit w) = Num (dbl (m * dbl w))"
    using w by (simp add: d_mul_def l rd_small)
  moreover have "0 \<le> dbl (m * dbl w)" using p by (simp add: dbl_nonneg)
  moreover have "dbl (m * dbl w) \<le> dbl (dbl w)" using p w by (intro dbl_mono)
  ultimately show ?thesis using assms by (simp add: dbl_dbl)
qed

lemma accum:
  assumes "0 \<le> a" "a \<le> A" "0 \<le> b" "b \<le> B" "A + B \<le> 100"
  shows "\<exists>s. d_add (Num a) (Num b) = Num s \<and> 0 \<le> s \<and> s \<le> dbl (A + B)"
proof -
  have "d_add (Num a) (Num b) = Num (dbl (a + b))" using assms by (simp add: d_add_def rd_small)
  moreover have "0 \<le> dbl (a + b)" using assms by (simp add: dbl_nonneg)
  moreover have "dbl (a + b) \<le> dbl (A + B)" using assms by (intro dbl_mono) simp_all
  ultimately show ?thesis by simp
qed


subsection \<open>The frequency table and the entropy\<close>

lemma freq_incr_keys: "fst ` set (freq_incr fr c) = insert c (fst ` set fr)"
  by (induction fr c rule: freq_incr.induct) auto

lemma freq_incr_distinct: "distinct (map fst fr) \<Longrightarrow> distinct (map fst (freq_incr fr c))"
proof (induction fr c rule: freq_incr.induct)
  case (1 c)
  then show ?case by simp
next
  case (2 k v fr c)
  then show ?case using freq_incr_keys [of fr c] by auto
qed

lemma freq_incr_count: "fr_count (freq_incr fr c) k = fr_count fr k + (if k = c then 1 else 0)"
  by (induction fr c rule: freq_incr.induct) (auto simp: fr_count_def)

lemma freq_foldl_keys: "fst ` set (foldl freq_incr fr p) = fst ` set fr \<union> set p"
  by (induction p arbitrary: fr) (auto simp: freq_incr_keys)

lemma freq_foldl_distinct: "distinct (map fst fr) \<Longrightarrow> distinct (map fst (foldl freq_incr fr p))"
  by (induction p arbitrary: fr) (auto simp: freq_incr_distinct)

lemma freq_foldl_count: "fr_count (foldl freq_incr fr p) k = fr_count fr k + count_list p k"
  by (induction p arbitrary: fr) (auto simp: freq_incr_count)

lemma freq_set:
  "set (foldl freq_incr [] p) = (\<lambda>k. (k, count_list p k)) ` set p"
proof -
  let ?fr = "foldl freq_incr [] p"
  have d: "distinct (map fst ?fr)" by (simp add: freq_foldl_distinct)
  have k: "fst ` set ?fr = set p" by (simp add: freq_foldl_keys)
  have c: "fr_count ?fr x = count_list p x" for x
    using freq_foldl_count [of "[]" p x] by (simp add: fr_count_def)
  have m: "(x, v) \<in> set ?fr \<Longrightarrow> v = count_list p x" for x v
    using d c [of x] by (simp add: fr_count_def)
  show ?thesis
  proof (rule set_eqI)
    fix e :: "'a \<times> nat"
    obtain x v where e: "e = (x, v)" by (cases e)
    show "e \<in> set ?fr \<longleftrightarrow> e \<in> (\<lambda>k. (k, count_list p k)) ` set p"
    proof
      assume a: "e \<in> set ?fr"
      then have "x \<in> set p" using k e by force
      moreover have "v = count_list p x" using a e m by simp
      ultimately show "e \<in> (\<lambda>k. (k, count_list p k)) ` set p" using e by simp
    next
      assume "e \<in> (\<lambda>k. (k, count_list p k)) ` set p"
      then have xp: "x \<in> set p" and v: "v = count_list p x" using e by auto
      then obtain w where w: "(x, w) \<in> set ?fr" using k by force
      then show "e \<in> set ?fr" using m [OF w] v e by simp
    qed
  qed
qed

lemma freq_sum:
  "sum_list (map g (foldl freq_incr [] p)) = (\<Sum>k\<in>set p. g (k, count_list p k))" for g :: "'k \<times> nat \<Rightarrow> real"
proof -
  let ?fr = "foldl freq_incr [] p"
  have "distinct (map fst ?fr)" by (simp add: freq_foldl_distinct)
  then have "distinct ?fr" by (rule distinct_map [THEN iffD1, THEN conjunct1])
  then have "sum_list (map g ?fr) = sum g (set ?fr)" by (simp add: sum_list_distinct_conv_sum_set)
  also have "\<dots> = sum g ((\<lambda>k. (k, count_list p k)) ` set p)" by (simp add: freq_set)
  also have "\<dots> = (\<Sum>k\<in>set p. g (k, count_list p k))"
    by (subst sum.reindex) (auto simp: inj_on_def)
  finally show ?thesis .
qed

lemma Object_values_mset: "mset (Object_values fr) = image_mset snd (mset fr)"
proof -
  let ?P = "\<lambda>kv :: char \<times> nat. isDigit (fst kv)"
  have "mset (Object_values fr) =
      image_mset snd (filter_mset ?P (mset fr)) + image_mset snd (filter_mset (\<lambda>kv. \<not> ?P kv) (mset fr))"
    by (simp add: Object_values_def)
  also have "\<dots> = image_mset snd (filter_mset ?P (mset fr) + filter_mset (\<lambda>kv. \<not> ?P kv) (mset fr))"
    by (simp only: image_mset_union)
  also have "filter_mset ?P (mset fr) + filter_mset (\<lambda>kv. \<not> ?P kv) (mset fr) = mset fr"
    by (rule multiset_partition [symmetric])
  finally show ?thesis .
qed

lemma Object_values_sum:
  "sum_list (map h (Object_values fr)) = sum_list (map (\<lambda>kv. h (snd kv)) fr)" for h :: "nat \<Rightarrow> real"
proof -
  have "sum_list (map h (Object_values fr)) = sum_mset (image_mset h (mset (Object_values fr)))"
    by (metis mset_map sum_mset_sum_list)
  also have "\<dots> = sum_mset (image_mset (\<lambda>kv. h (snd kv)) (mset fr))"
    by (simp add: Object_values_mset image_mset.compositionality comp_def)
  also have "\<dots> = sum_list (map (\<lambda>kv. h (snd kv)) fr)"
    by (metis mset_map sum_mset_sum_list)
  finally show ?thesis .
qed

lemma Object_values_set: "set (Object_values fr) = snd ` set fr"
  by (metis Object_values_mset set_mset_mset set_image_mset)

lemma shannon_step:
  assumes "0 < v" and "0 < len"
  shows "js_sub (Num a) (js_mul (js_div (Num (real v)) (Num (real len)))
                          (Math_log2 (js_div (Num (real v)) (Num (real len))))) =
   Num (a - real v / real len * log 2 (real v / real len))"
proof -
  have l: "real len \<noteq> 0" using assms by simp
  have q: "0 < real v / real len" using assms by simp
  have d: "js_div (Num (real v)) (Num (real len)) = Num (real v / real len)"
    using l by simp
  have g: "Math_log2 (Num (real v / real len)) = Num (log 2 (real v / real len))"
    using q by (simp del: zero_less_divide_iff divide_eq_0_iff)
  show ?thesis by (simp only: d g js_mul.simps js_sub_def js_neg.simps js_add.simps) simp
qed

lemma shannon_loop:
  assumes "0 < len" and "\<And>v. v \<in> set vs \<Longrightarrow> 0 < v"
  shows "foldl (\<lambda>entropy cnt.
            js_sub entropy (js_mul (js_div (Num (real cnt)) (Num (real len)))
                                   (Math_log2 (js_div (Num (real cnt)) (Num (real len))))))
           (Num a) vs =
         Num (a - sum_list (map (\<lambda>v. real v / real len * log 2 (real v / real len)) vs))"
  using assms(2)
proof (induction vs arbitrary: a)
  case Nil
  then show ?case by simp
next
  case (Cons v vs)
  have v: "0 < v" using Cons.prems by simp
  have r: "\<And>w. w \<in> set vs \<Longrightarrow> 0 < w" using Cons.prems by simp
  show ?case
    by (simp only: foldl_Cons shannon_step [OF v assms(1)] Cons.IH [OF r]) (simp add: algebra_simps)
qed

lemma count_list_pos: "c \<in> set p \<Longrightarrow> 0 < count_list p c"
  by (induction p) auto

lemma calculateShannonEntropy_eq: "calculateShannonEntropy p = Num (shannon_bits p)"
proof (cases "p = []")
  case True
  then show ?thesis
    by (simp add: calculateShannonEntropy_def shannon_bits_def Object_values_def)
next
  case False
  let ?fr = "foldl freq_incr [] p"
  let ?h = "\<lambda>v. real v / real (length p) * log 2 (real v / real (length p))"
  have len: "0 < length p" using False by simp
  have pos: "\<And>v. v \<in> set (Object_values ?fr) \<Longrightarrow> 0 < v"
    by (auto simp: Object_values_set freq_set count_list_pos)
  have "sum_list (map ?h (Object_values ?fr)) = sum_list (map (\<lambda>kv. ?h (snd kv)) ?fr)"
    by (rule Object_values_sum)
  also have "\<dots> = (\<Sum>k\<in>set p. ?h (count_list p k))"
    using freq_sum [of "\<lambda>kv. ?h (snd kv)" p] by simp
  finally have s: "sum_list (map ?h (Object_values ?fr)) = (\<Sum>k\<in>set p. char_prob p k * log 2 (char_prob p k))"
    by (simp add: char_prob_def)
  show ?thesis
    unfolding calculateShannonEntropy_def Let_def
    by (simp only: shannon_loop [OF len pos] s) (simp add: shannon_bits_def)
qed

subsection \<open>Tests of regular expressions\<close>

lemma search_iff:
  "(search ic r n pv s \<noteq> None) =
   (\<exists>pre post. s = pre @ post \<and> matches_at ic r (last_char pv pre) post)"
proof (induction s arbitrary: pv)
  case Nil
  show ?case by (simp add: matches_at_def last_char_def split: list.splits)
next
  case (Cons c cs)
  show ?case
  proof (cases "ms ic r (pv, c # cs, None)")
    case (Cons st sts)
    then have "matches_at ic r (last_char pv []) (c # cs)" by (simp add: matches_at_def last_char_def)
    then have "\<exists>pre post. c # cs = pre @ post \<and> matches_at ic r (last_char pv pre) post"
      by (intro exI [of _ "[]"] exI [of _ "c # cs"]) simp
    then show ?thesis using Cons by simp
  next
    case Nil
    have "(search ic r n pv (c # cs) \<noteq> None) = (search ic r n (Some c) cs \<noteq> None)"
      using Nil by simp
    also have "\<dots> = (\<exists>pre post. cs = pre @ post \<and> matches_at ic r (last_char (Some c) pre) post)"
      by (rule Cons.IH)
    also have "\<dots> = (\<exists>pre post. c # cs = pre @ post \<and> matches_at ic r (last_char pv pre) post)"
    proof
      assume "\<exists>pre post. cs = pre @ post \<and> matches_at ic r (last_char (Some c) pre) post"
      then obtain pre post where p: "cs = pre @ post" "matches_at ic r (last_char (Some c) pre) post"
        by blast
      have "last_char pv (c # pre) = last_char (Some c) pre" by (simp add: last_char_def)
      then show "\<exists>pre post. c # cs = pre @ post \<and> matches_at ic r (last_char pv pre) post"
        using p by (intro exI [of _ "c # pre"] exI [of _ post]) simp
    next
      assume "\<exists>pre post. c # cs = pre @ post \<and> matches_at ic r (last_char pv pre) post"
      then obtain pre post where p: "c # cs = pre @ post" "matches_at ic r (last_char pv pre) post"
        by blast
      have "pre \<noteq> []" using p Nil by (auto simp: matches_at_def last_char_def)
      then obtain pre' where pre: "pre = c # pre'" using p(1) by (cases pre) auto
      have "last_char pv (c # pre') = last_char (Some c) pre'" by (simp add: last_char_def)
      then show "\<exists>pre post. cs = pre @ post \<and> matches_at ic r (last_char (Some c) pre) post"
        using p pre by (intro exI [of _ pre'] exI [of _ post]) simp
    qed
    finally show ?thesis .
  qed
qed

lemma RegExp_test_plain:
  "\<not> global re \<Longrightarrow> RegExp_test re s = (found (ignoreCase re) (pattern re) s, re)"
proof -
  assume g: "\<not> global re"
  have "(search (ignoreCase re) (pattern re) (length s) None s \<noteq> None) =
        found (ignoreCase re) (pattern re) s"
    unfolding found_def by (rule search_iff)
  then show ?thesis using g
    by (auto simp: RegExp_test_def exec_from_def split: option.splits)
qed

lemma re_test_found: "re_test r ic s = found ic r s"
  by (simp add: re_test_def RegExp_test_plain literal_def)

lemma found_Cls: "found ic (Cls neg rs) s = (\<exists>c\<in>set s. cls_match ic neg rs c)"
proof -
  have m: "matches_at ic (Cls neg rs) pv post = (\<exists>c cs. post = c # cs \<and> cls_match ic neg rs c)"
    for pv post by (cases post) (simp_all add: matches_at_def)
  show ?thesis
  proof
    assume "found ic (Cls neg rs) s"
    then obtain pre c cs where "s = pre @ c # cs" "cls_match ic neg rs c"
      unfolding found_def m by blast
    then show "\<exists>c\<in>set s. cls_match ic neg rs c" by auto
  next
    assume "\<exists>c\<in>set s. cls_match ic neg rs c"
    then obtain c where c: "c \<in> set s" "cls_match ic neg rs c" by blast
    then obtain pre cs where "s = pre @ c # cs" by (meson split_list)
    then show "found ic (Cls neg rs) s" unfolding found_def m using c by blast
  qed
qed

lemma test_lower: "re_test (Cls False [(CHR ''a'', CHR ''z'')]) False p = list_ex isLower p"
  by (simp add: re_test_found found_Cls cls_match_def in_ranges_def isLower_def list_ex_iff)

lemma test_upper: "re_test (Cls False [(CHR ''A'', CHR ''Z'')]) False p = list_ex isUpper p"
  by (simp add: re_test_found found_Cls cls_match_def in_ranges_def isUpper_def list_ex_iff)

lemma test_digit: "re_test (Cls False [(CHR ''0'', CHR ''9'')]) False p = list_ex isDigit p"
  by (simp add: re_test_found found_Cls cls_match_def in_ranges_def isDigit_def list_ex_iff)

lemma test_other:
  "re_test (Cls True [(CHR ''a'', CHR ''z''), (CHR ''A'', CHR ''Z''), (CHR ''0'', CHR ''9'')]) False p =
   list_ex other_char p"
  by (simp add: re_test_found found_Cls cls_match_def in_ranges_def isLower_def isUpper_def
      isDigit_def other_char_def list_ex_iff)

subsection \<open>The metrics\<close>

lemma calculateEntropy_charset: "charset (calculateEntropy p) = charset_size p"
  by (simp add: calculateEntropy_def Let_def test_lower test_upper test_digit test_other
      charset_size_def)

lemma charset_size_le: "charset_size p \<le> 94"
  by (simp add: charset_size_def)

lemma charset_size_ge: "p \<noteq> [] \<Longrightarrow> 10 \<le> charset_size p"
proof -
  assume "p \<noteq> []"
  then obtain c cs where p: "p = c # cs" by (cases p) auto
  have "isLower c \<or> isUpper c \<or> isDigit c \<or> other_char c" by (auto simp: other_char_def)
  then have "list_ex isLower p \<or> list_ex isUpper p \<or> list_ex isDigit p \<or> list_ex other_char p"
    using p by auto
  then show ?thesis by (auto simp: charset_size_def)
qed

lemma ratio_percent:
  assumes "k \<le> n" "0 < n"
  shows "d_mul (d_div (Num (real k)) (Num (real n))) (Num 100) =
         Num (dbl (dbl (real k / real n) * 100)) \<and>
         0 \<le> dbl (dbl (real k / real n) * 100) \<and> dbl (dbl (real k / real n) * 100) \<le> 100"
proof -
  have q: "0 \<le> real k / real n" "real k / real n \<le> 1" using assms by simp_all
  then have "real k / real n \<le> 100" by linarith
  then have "rd (Num (real k / real n)) = Num (dbl (real k / real n))" using q(1) by (intro rd_small)
  then have d: "d_div (Num (real k)) (Num (real n)) = Num (dbl (real k / real n))"
    using assms(2) by (simp add: d_div_def)
  have b: "0 \<le> dbl (real k / real n)" "dbl (real k / real n) \<le> 1"
    using q by (simp_all add: dbl_nonneg dbl_le_1)
  then have c: "0 \<le> dbl (real k / real n) * 100" "dbl (real k / real n) * 100 \<le> 100" by simp_all
  then have "d_mul (Num (dbl (real k / real n))) (Num 100) = Num (dbl (dbl (real k / real n) * 100))"
    by (simp add: d_mul_def rd_small)
  then show ?thesis using d c by (simp add: dbl_nonneg dbl_le_100)
qed

lemma calculateUniqueness_eq:
  "calculateUniqueness p =
   (if p = [] then NaN else Num (dbl (dbl (real (card (set p)) / real (length p)) * 100)))"
proof (cases "p = []")
  case True
  then show ?thesis by (simp add: calculateUniqueness_def d_mul_def d_div_def rd_def signed_inf_def)
next
  case False
  then have "card (set p) \<le> length p" "0 < length p" by (simp_all add: card_length)
  then show ?thesis
    using False ratio_percent [of "card (set p)" "length p"]
    by (simp add: calculateUniqueness_def length_remdups_card_conv)
qed

lemma calculateUniqueness_range:
  "p \<noteq> [] \<Longrightarrow> \<exists>u. calculateUniqueness p = Num u \<and> 0 \<le> u \<and> u \<le> 100"
proof -
  assume "p \<noteq> []"
  then have "card (set p) \<le> length p" "0 < length p" by (simp_all add: card_length)
  then show ?thesis
    using \<open>p \<noteq> []\<close> ratio_percent [of "card (set p)" "length p"]
    by (simp add: calculateUniqueness_eq)
qed

lemma calculateUniqueness_distinct:
  "p \<noteq> [] \<Longrightarrow> distinct p \<Longrightarrow> calculateUniqueness p = Num 100"
  by (simp add: calculateUniqueness_eq distinct_card dbl_1 dbl_100)

lemma calculateEntropy_uniqueness: "uniqueness (calculateEntropy p) = calculateUniqueness p"
  by (simp add: calculateEntropy_def Let_def)

lemma calculateEntropy_shannon: "shannon (calculateEntropy p) = Num (shannon_bits p)"
  by (simp add: calculateEntropy_def Let_def calculateShannonEntropy_eq)

lemma calculateEntropy_nist_raw:
  "nist (calculateEntropy p) =
   Math_log2 (Math_pow (Num (real (charset_size p))) (Num (real (length p))))"
  by (simp add: calculateEntropy_def Let_def test_lower test_upper test_digit test_other
      charset_size_def)

lemma log2_overflow:
  "0 < x \<Longrightarrow> Math_log2 (overflow x) = (if double_limit \<le> x then PosInf else Num (log 2 x))"
  by (simp add: overflow_def double_limit_def)

lemma calculateEntropy_nist:
  assumes "p \<noteq> []"
  shows "nist (calculateEntropy p) =
         (if double_limit \<le> real (charset_size p ^ length p) then PosInf
          else Num (real (length p) * log 2 (real (charset_size p))))"
proof -
  let ?c = "charset_size p" and ?n = "length p"
  have c: "0 < real ?c" using charset_size_ge [OF assms] by simp
  have n: "real ?n \<noteq> 0" using assms by simp
  have pw: "real ?c powr real ?n = real (?c ^ ?n)" using c by (simp add: powr_realpow)
  have pos: "0 < real (?c ^ ?n)" using c by simp
  have a: "Math_pow (Num (real ?c)) (Num (real ?n)) = overflow (real (?c ^ ?n))"
    using c n pw by (simp del: of_nat_power)
  have b: "Math_log2 (overflow (real (?c ^ ?n))) =
      (if double_limit \<le> real (?c ^ ?n) then PosInf else Num (log 2 (real (?c ^ ?n))))"
    using pos by (rule log2_overflow)
  have l: "log 2 (real (?c ^ ?n)) = real ?n * log 2 (real ?c)"
    using c by (simp add: log_nat_power)
  show ?thesis by (simp only: calculateEntropy_nist_raw a b l)
qed

lemma char_prob_range: "c \<in> set p \<Longrightarrow> 0 < char_prob p c \<and> char_prob p c \<le> 1"
proof -
  assume c: "c \<in> set p"
  have le: "count_list p c \<le> length p" by (rule count_le_length)
  have pos: "0 < count_list p c" using c by (rule count_list_pos)
  have len: "0 < length p" using c by (cases p) auto
  show ?thesis using le pos len by (simp add: char_prob_def)
qed

lemma shannon_bits_nonneg: "0 \<le> shannon_bits p"
proof -
  have "char_prob p c * log 2 (char_prob p c) \<le> 0" if "c \<in> set p" for c
  proof -
    have "0 < char_prob p c" "char_prob p c \<le> 1" using char_prob_range [OF that] by simp_all
    then have "log 2 (char_prob p c) \<le> 0" by simp
    then show ?thesis using \<open>0 < char_prob p c\<close> by (simp add: mult_le_0_iff)
  qed
  then have "(\<Sum>c\<in>set p. char_prob p c * log 2 (char_prob p c)) \<le> 0"
    by (rule sum_nonpos)
  then have "0 \<le> - (\<Sum>c\<in>set p. char_prob p c * log 2 (char_prob p c))" by simp
  then have "0 \<le> (- (\<Sum>c\<in>set p. char_prob p c * log 2 (char_prob p c))) * real (length p)"
    by (intro mult_nonneg_nonneg) simp_all
  then show ?thesis by (simp only: shannon_bits_def)
qed

subsection \<open>The score\<close>

text \<open>
  The score is the formula of the specification in the arithmetic of the program. Adding
  the first term to 0 is exact, because the term is a double already.
\<close>

lemma d_add_zero:
  assumes "0 \<le> x" "x \<le> 100"
  shows "d_add (Num 0) (Num (dbl x)) = Num (dbl x)"
proof -
  have "0 \<le> dbl x" "dbl x \<le> 100" using assms by (simp_all add: dbl_nonneg dbl_le_100)
  then have "d_add (Num 0) (Num (dbl x)) = Num (dbl (dbl x))" by (simp add: d_add_def rd_small)
  then show ?thesis using assms by (simp add: dbl_dbl)
qed

lemma length_term:
  "\<exists>x. d_mul (Math_min (d_div (Num (real n)) (Num 20)) (Num 1)) (lit (25 / 100)) = Num (dbl x) \<and>
       0 \<le> x \<and> x \<le> 1 / 4"
proof -
  obtain m where m: "Math_min (d_div (Num (real n)) (Num 20)) (Num 1) = Num m" "0 \<le> m" "m \<le> 1"
    using min_one [of "Num (real n)" 20] by auto
  have l: "lit (25 / 100) = Num (1 / 4)" by (simp add: lit_small dbl_c25)
  have "d_mul (Num m) (Num (1 / 4)) = Num (dbl (m * (1 / 4)))"
    using m by (simp add: d_mul_def rd_small)
  then show ?thesis using m l by (intro exI [of _ "m * (1 / 4)"]) simp
qed

lemma calculateStrength_score:
  "score (calculateStrength p e f) =
   spec_final (spec_subtotal (length p) (shannon e) (charset e) (uniqueness e) (nist e))
     (count_true f) (dictionary f)"
proof -
  obtain x where x: "d_mul (Math_min (d_div (Num (real (length p))) (Num 20)) (Num 1)) (lit (25 / 100)) =
      Num (dbl x)" "0 \<le> x" "x \<le> 1 / 4"
    using length_term [of "length p"] by auto
  have z: "d_add (Num 0) (Num (dbl x)) = Num (dbl x)" using x by (intro d_add_zero) simp_all
  show ?thesis
    unfolding calculateStrength_def spec_final_def spec_subtotal_def Let_def
    by (simp only: x(1) z) simp
qed

lemma weight_min:
  assumes "a = PosInf \<or> (\<exists>d. a = Num d \<and> 0 \<le> d)" and "0 < c" and "0 \<le> w" "w \<le> 1"
  shows "\<exists>t. d_mul (Math_min (d_div a (Num c)) (Num 1)) (lit w) = Num t \<and> 0 \<le> t \<and> t \<le> dbl w"
proof -
  obtain m where m: "Math_min (d_div a (Num c)) (Num 1) = Num m" "0 \<le> m" "m \<le> 1"
    using min_one [OF assms(1,2)] by auto
  show ?thesis unfolding m(1) using m(2,3) assms(3,4) by (rule weight)
qed

lemma weight_div:
  assumes "0 \<le> a" "a \<le> c" "0 < c" "c \<le> 100" and "0 \<le> w" "w \<le> 1"
  shows "\<exists>t. d_mul (d_div (Num a) (Num c)) (lit w) = Num t \<and> 0 \<le> t \<and> t \<le> dbl w"
proof -
  have q: "0 \<le> a / c" "a / c \<le> 1" using assms by simp_all
  then have "a / c \<le> 100" by linarith
  then have "rd (Num (a / c)) = Num (dbl (a / c))" using q(1) by (intro rd_small)
  then have d: "d_div (Num a) (Num c) = Num (dbl (a / c))"
    using assms(3) by (simp add: d_div_def)
  have "0 \<le> dbl (a / c)" "dbl (a / c) \<le> 1" using q by (simp_all add: dbl_nonneg dbl_le_1)
  then show ?thesis unfolding d using assms(5,6) by (rule weight)
qed

lemma spec_subtotal_range:
  assumes sh: "sh = PosInf \<or> (\<exists>d. sh = Num d \<and> 0 \<le> d)"
    and ni: "ni = PosInf \<or> (\<exists>d. ni = Num d \<and> 0 \<le> d)"
    and u: "0 \<le> u" "u \<le> 100" and cs: "cs \<le> 94"
  shows "\<exists>S. spec_subtotal len sh cs (Num u) ni = Num S \<and> 0 \<le> S \<and> S \<le> 1"
proof -
  obtain x where x: "d_mul (Math_min (d_div (Num (real len)) (Num 20)) (Num 1)) (lit (25 / 100)) =
      Num (dbl x)" "0 \<le> x" "x \<le> 1 / 4"
    using length_term [of len] by auto
  have t1: "0 \<le> dbl x" "dbl x \<le> 1 / 4"
    using x dbl_mono [of x "1 / 4"] by (simp_all add: dbl_nonneg dbl_c25)
  obtain t2 where t2: "d_mul (Math_min (d_div sh (Num 50)) (Num 1)) (lit (30 / 100)) = Num t2"
      "0 \<le> t2" "t2 \<le> 5404319552844595 / 2 ^ 54"
    using weight_min [OF sh, of 50 "30 / 100"] by (auto simp: dbl_c30)
  obtain t3 where t3: "d_mul (d_div (Num (real cs)) (Num 94)) (lit (15 / 100)) = Num t3"
      "0 \<le> t3" "t3 \<le> 5404319552844595 / 2 ^ 55"
    using weight_div [of "real cs" 94 "15 / 100"] cs by (auto simp: dbl_c15)
  obtain t4 where t4: "d_mul (d_div (Num u) (Num 100)) (lit (10 / 100)) = Num t4"
      "0 \<le> t4" "t4 \<le> 3602879701896397 / 2 ^ 55"
    using weight_div [of u 100 "10 / 100"] u by (auto simp: dbl_c10)
  obtain t5 where t5: "d_mul (Math_min (d_div ni (Num 60)) (Num 1)) (lit (10 / 100)) = Num t5"
      "0 \<le> t5" "t5 \<le> 3602879701896397 / 2 ^ 55"
    using weight_min [OF ni, of 60 "10 / 100"] by (auto simp: dbl_c10)
  have t6: "lit (10 / 100) = Num (3602879701896397 / 2 ^ 55)"
    by (simp add: lit_small dbl_c10)
  obtain s2 where s2: "d_add (Num (dbl x)) (Num t2) = Num s2" "0 \<le> s2"
      "s2 \<le> 2476979795053773 / 2 ^ 52"
    using accum [OF t1 t2(2,3)] by (simp only: sum2) auto
  obtain s3 where s3: "d_add (Num s2) (Num t3) = Num s3" "0 \<le> s3"
      "s3 \<le> 6305039478318695 / 2 ^ 53"
    using accum [OF s2(2,3) t3(2,3)] by (simp only: sum3) auto
  obtain s4 where s4: "d_add (Num s3) (Num t4) = Num s4" "0 \<le> s4"
      "s4 \<le> 3602879701896397 / 2 ^ 52"
    using accum [OF s3(2,3) t4(2,3)] by (simp only: sum4) auto
  obtain s5 where s5: "d_add (Num s4) (Num t5) = Num s5" "0 \<le> s5"
      "s5 \<le> 8106479329266893 / 2 ^ 53"
    using accum [OF s4(2,3) t5(2,3)] by (simp only: sum5) auto
  obtain s6 where s6: "d_add (Num s5) (Num (3602879701896397 / 2 ^ 55)) = Num s6" "0 \<le> s6"
      "s6 \<le> 1"
    using accum [OF s5(2,3), of "3602879701896397 / 2 ^ 55" "3602879701896397 / 2 ^ 55"]
    by (simp only: sum6) auto
  show ?thesis
    unfolding spec_subtotal_def
    apply (simp only: x(1) t2(1) t3(1) t4(1) t5(1) s2(1) s3(1) s4(1) s5(1))
    apply (simp only: t6 s6(1))
    apply (simp add: s6(2,3))
    done
qed

lemma spec_final_range:
  assumes "0 \<le> S" "S \<le> 1"
  shows "\<exists>r. spec_final (Num S) cnt dict = Num r \<and> 0 \<le> r \<and> r \<le> 1"
proof -
  have l: "lit (8 / 100) = Num (dbl (8 / 100))" by (simp add: lit_small)
  have c: "0 \<le> real cnt * dbl (8 / 100)" by (simp add: dbl_nonneg)
  have pen: "d_mul (Num (real cnt)) (lit (8 / 100)) = PosInf \<or>
             d_mul (Num (real cnt)) (lit (8 / 100)) = Num (dbl (real cnt * dbl (8 / 100)))"
    using rd_nonneg [OF c] by (simp only: d_mul_def l js_mul.simps)
  have "\<exists>z. Math_max (Num 0) (d_sub (Num S) (d_mul (Num (real cnt)) (lit (8 / 100)))) = Num z \<and>
            0 \<le> z \<and> z \<le> 1"
  proof (cases "d_mul (Num (real cnt)) (lit (8 / 100)) = PosInf")
    case True
    then show ?thesis by (simp add: d_sub_def js_sub_def rd_def Math_max_def)
  next
    case False
    then have p: "d_mul (Num (real cnt)) (lit (8 / 100)) = Num (dbl (real cnt * dbl (8 / 100)))"
      using pen by simp
    define y where "y = S - dbl (real cnt * dbl (8 / 100))"
    have "0 \<le> dbl (real cnt * dbl (8 / 100))" using c by (rule dbl_nonneg)
    then have "y \<le> 1" using assms by (simp add: y_def)
    then have y: "dbl y \<le> 1" by (rule dbl_le_1)
    then have "overflow (dbl y) = NegInf \<or> overflow (dbl y) = Num (dbl y)"
      by (intro overflow_le) simp
    then have "d_sub (Num S) (Num (dbl (real cnt * dbl (8 / 100)))) = NegInf \<or>
               d_sub (Num S) (Num (dbl (real cnt * dbl (8 / 100)))) = Num (dbl y)"
      by (simp add: d_sub_def js_sub_def rd_def y_def)
    then show ?thesis unfolding p using y by (auto simp: Math_max_def)
  qed
  then obtain z where z: "Math_max (Num 0) (d_sub (Num S) (d_mul (Num (real cnt)) (lit (8 / 100)))) = Num z"
    "0 \<le> z" "z \<le> 1" by auto
  obtain t where t: "d_mul (Num z) (lit (3 / 10)) = Num t" "0 \<le> t" "t \<le> dbl (3 / 10)"
    using weight [OF z(2,3), of "3 / 10"] by auto
  have "dbl (3 / 10) \<le> 1" by (intro dbl_le_1) simp
  then have "t \<le> 1" using t(3) by simp
  then show ?thesis
    unfolding spec_final_def Let_def by (simp only: z(1) t(1)) (simp add: z t(2))
qed

lemma calculateStrength_range:
  assumes "shannon e = PosInf \<or> (\<exists>d. shannon e = Num d \<and> 0 \<le> d)"
    and "nist e = PosInf \<or> (\<exists>d. nist e = Num d \<and> 0 \<le> d)"
    and "uniqueness e = Num u" "0 \<le> u" "u \<le> 100" and "charset e \<le> 94"
  shows "\<exists>r. score (calculateStrength p e f) = Num r \<and> 0 \<le> r \<and> r \<le> 1"
proof -
  obtain S where S: "spec_subtotal (length p) (shannon e) (charset e) (Num u) (nist e) = Num S"
    "0 \<le> S" "S \<le> 1"
    using spec_subtotal_range [OF assms(1,2,4,5,6)] by auto
  show ?thesis
    unfolding calculateStrength_score assms(3) S(1) using S(2,3) by (rule spec_final_range)
qed

lemma shown_range:
  assumes "0 \<le> r" "r \<le> 1"
  shows "Math_round (d_mul (Num r) (Num 100)) = Num (of_int \<lfloor>dbl (r * 100) + 1 / 2\<rfloor>) \<and>
         0 \<le> \<lfloor>dbl (r * 100) + 1 / 2\<rfloor> \<and> \<lfloor>dbl (r * 100) + 1 / 2\<rfloor> \<le> 100"
proof -
  have b: "0 \<le> r * 100" "r * 100 \<le> 100" using assms by simp_all
  then have d: "0 \<le> dbl (r * 100)" "dbl (r * 100) \<le> 100"
    by (simp_all add: dbl_nonneg dbl_le_100)
  have "d_mul (Num r) (Num 100) = Num (dbl (r * 100))" using b by (simp add: d_mul_def rd_small)
  moreover have "0 \<le> \<lfloor>dbl (r * 100) + 1 / 2\<rfloor>" using d by simp
  moreover have "\<lfloor>dbl (r * 100) + 1 / 2\<rfloor> \<le> 100" using d by (simp add: floor_le_iff)
  ultimately show ?thesis by simp
qed

text \<open>The metrics of a non-empty password are in the ranges the score needs.\<close>

lemma nist_nonneg:
  assumes "p \<noteq> []"
  shows "nist (calculateEntropy p) = PosInf \<or> (\<exists>d. nist (calculateEntropy p) = Num d \<and> 0 \<le> d)"
proof -
  have "1 \<le> real (charset_size p)" using charset_size_ge [OF assms] by simp
  then have "0 \<le> log 2 (real (charset_size p))" by simp
  then have "0 \<le> real (length p) * log 2 (real (charset_size p))" by simp
  then show ?thesis by (simp add: calculateEntropy_nist [OF assms])
qed

lemma performAnalysis_fields:
  "entropy (fst (performAnalysis this p)) = calculateEntropy p"
  "patterns (fst (performAnalysis this p)) = fst (detectPatterns this p)"
  "strength (fst (performAnalysis this p)) =
     calculateStrength p (calculateEntropy p) (fst (detectPatterns this p))"
  "crackTimes (fst (performAnalysis this p)) = estimateCrackTimes p (calculateEntropy p)"
  "score_shown (fst (performAnalysis this p)) =
     Math_round (d_mul (score (calculateStrength p (calculateEntropy p) (fst (detectPatterns this p))))
                        (Num 100))"
  "snd (performAnalysis this p) = snd (detectPatterns this p)"
  by (simp_all add: performAnalysis_def Let_def split_def)

lemma score_range:
  assumes "p \<noteq> []"
  shows "\<exists>r. score (strength (fst (performAnalysis this p))) = Num r \<and> 0 \<le> r \<and> r \<le> 1"
proof -
  obtain u where u: "uniqueness (calculateEntropy p) = Num u" "0 \<le> u" "u \<le> 100"
    using calculateUniqueness_range [OF assms] by (auto simp: calculateEntropy_uniqueness)
  have sh: "shannon (calculateEntropy p) = PosInf \<or>
            (\<exists>d. shannon (calculateEntropy p) = Num d \<and> 0 \<le> d)"
    by (simp add: calculateEntropy_shannon shannon_bits_nonneg)
  have cs: "charset (calculateEntropy p) \<le> 94"
    by (simp add: calculateEntropy_charset charset_size_le)
  show ?thesis
    unfolding performAnalysis_fields
    using sh nist_nonneg [OF assms] u cs by (rule calculateStrength_range)
qed

subsection \<open>Empty and single-character passwords, long passwords\<close>

lemma detectPatterns_count:
  "count_true (fst (detectPatterns this p)) =
   (let f = fst (detectPatterns this p)
    in length (filter (\<lambda>b. b) [keyboard f, repeated f, sequential f, date f, leet f,
                                  dictionary f, personal f]))"
  by (simp add: detectPatterns_def Let_def split_def)

lemma all_dropWhile: "(\<forall>x\<in>set (dropWhile P xs). P x) = (\<forall>x\<in>set xs. P x)"
  by (induction xs) auto

lemma trim_empty_iff: "(trim s = []) = list_all isWhiteSpace s"
  by (simp add: trim_def all_dropWhile list_all_iff)

lemma shannon_bits_Nil: "shannon_bits [] = 0"
  by (simp add: shannon_bits_def)

lemma charset_size_Nil: "charset_size [] = 0"
  by (simp add: charset_size_def)

lemma empty_entropy:
  "calculateEntropy [] = \<lparr>shannon = Num 0, nist = Num 0, charset = 0, uniqueness = NaN\<rparr>"
proof -
  have "shannon (calculateEntropy []) = Num 0"
    by (simp add: calculateEntropy_shannon shannon_bits_Nil)
  moreover have "charset (calculateEntropy []) = 0"
    by (simp add: calculateEntropy_charset charset_size_Nil)
  moreover have "nist (calculateEntropy []) = Num 0"
    by (simp add: calculateEntropy_nist_raw charset_size_Nil)
  moreover have "uniqueness (calculateEntropy []) = NaN"
    by (simp add: calculateEntropy_uniqueness calculateUniqueness_eq)
  ultimately show ?thesis by (cases "calculateEntropy []") simp
qed

lemma NaN_absorbs:
  "js_add x NaN = NaN" "js_mul x NaN = NaN" "js_div NaN x = NaN" "rd NaN = NaN"
  by (cases x; simp add: rd_def)+

lemma empty_shown: "Math_round (d_mul NaN (Num 100)) = NaN"
  by (simp add: d_mul_def rd_def)

lemma empty_score:
  "score (calculateStrength [] \<lparr>shannon = Num 0, nist = Num 0, charset = 0, uniqueness = NaN\<rparr> f) = NaN"
  by (simp add: calculateStrength_score spec_final_def spec_subtotal_def Let_def d_add_def d_sub_def
      d_mul_def d_div_def NaN_absorbs Math_max_def js_sub_def)

lemma shannon_bits_single: "shannon_bits [c] = 0"
  by (simp add: shannon_bits_def char_prob_def)

lemma class_disjoint:
  "\<not> (isLower c \<and> isUpper c)" "\<not> (isLower c \<and> isDigit c)" "\<not> (isUpper c \<and> isDigit c)"
  by (auto simp: isLower_def isUpper_def isDigit_def in_range_def less_eq_char_def)

lemma charset_size_single: "charset_size [c] \<in> {10, 26, 32}"
  using class_disjoint [of c] by (auto simp: charset_size_def other_char_def)

lemma list_ex_concat_replicate:
  "list_ex P (concat (replicate n xs)) = (0 < n \<and> list_ex P xs)"
  by (induction n) (auto simp: list_ex_iff)

lemma length_concat_replicate: "length (concat (replicate n xs)) = n * length xs"
  by (induction n) auto

lemma nist_entropy_in_range:
  assumes "p \<noteq> []" and "real (charset_size p ^ length p) < double_limit"
  shows "nist (calculateEntropy p) = Num (real (length p) * log 2 (real (charset_size p))) \<and>
         0 < real (length p) * log 2 (real (charset_size p))"
proof -
  have "1 < real (charset_size p)" using charset_size_ge [OF assms(1)] by simp
  then have "0 < log 2 (real (charset_size p))" by simp
  moreover have "0 < real (length p)" using assms(1) by simp
  ultimately have "0 < real (length p) * log 2 (real (charset_size p))" by simp
  then show ?thesis using assms by (simp add: calculateEntropy_nist)
qed

subsection \<open>Appending a new character\<close>

lemma shannon_bits_alt:
  "shannon_bits p =
   (\<Sum>x\<in>set p. real (count_list p x) * log 2 (real (length p) / real (count_list p x)))"
proof (cases "p = []")
  case True
  then show ?thesis by (simp add: shannon_bits_def)
next
  case False
  then have n: "0 < real (length p)" by simp
  have t: "- (char_prob p x * log 2 (char_prob p x)) * real (length p) =
           real (count_list p x) * log 2 (real (length p) / real (count_list p x))"
    if "x \<in> set p" for x
  proof -
    have c: "0 < real (count_list p x)" using count_list_pos [OF that] by simp
    have "log 2 (real (length p) / real (count_list p x)) =
          - log 2 (real (count_list p x) / real (length p))"
      using c n by (simp add: log_divide)
    then show ?thesis using n by (simp add: char_prob_def)
  qed
  have "shannon_bits p = (\<Sum>x\<in>set p. - (char_prob p x * log 2 (char_prob p x)) * real (length p))"
    by (simp add: shannon_bits_def sum_distrib_right sum_negf)
  also have "\<dots> = (\<Sum>x\<in>set p. real (count_list p x) * log 2 (real (length p) / real (count_list p x)))"
    by (intro sum.cong refl t)
  finally show ?thesis .
qed

lemma count_list_append_new:
  "x \<noteq> c \<Longrightarrow> count_list (p @ [c]) x = count_list p x"
  by (induction p) auto

lemma count_list_append_same:
  "c \<notin> set p \<Longrightarrow> count_list (p @ [c]) c = 1"
  by (induction p) auto

lemma shannon_bits_append:
  assumes "c \<notin> set p"
  shows "shannon_bits p \<le> shannon_bits (p @ [c])"
proof -
  let ?n = "real (length p)"
  have fin: "finite (set p)" by simp
  have "shannon_bits (p @ [c]) =
        (\<Sum>x\<in>insert c (set p). real (count_list (p @ [c]) x) *
             log 2 (real (length (p @ [c])) / real (count_list (p @ [c]) x)))"
    by (simp add: shannon_bits_alt)
  also have "\<dots> = real (count_list (p @ [c]) c) *
             log 2 (real (length (p @ [c])) / real (count_list (p @ [c]) c)) +
        (\<Sum>x\<in>set p. real (count_list (p @ [c]) x) *
             log 2 (real (length (p @ [c])) / real (count_list (p @ [c]) x)))"
    using assms fin by (rule_tac sum.insert) simp_all
  also have "\<dots> = log 2 (?n + 1) +
        (\<Sum>x\<in>set p. real (count_list p x) * log 2 ((?n + 1) / real (count_list p x)))"
  proof -
    have "(\<Sum>x\<in>set p. real (count_list (p @ [c]) x) *
             log 2 (real (length (p @ [c])) / real (count_list (p @ [c]) x))) =
          (\<Sum>x\<in>set p. real (count_list p x) * log 2 ((?n + 1) / real (count_list p x)))"
    proof (rule sum.cong)
      fix x assume "x \<in> set p"
      then have "x \<noteq> c" using assms by auto
      then show "real (count_list (p @ [c]) x) *
             log 2 (real (length (p @ [c])) / real (count_list (p @ [c]) x)) =
            real (count_list p x) * log 2 ((?n + 1) / real (count_list p x))"
        by (simp add: count_list_append_new add.commute)
    qed simp
    then show ?thesis using assms by (simp add: count_list_append_same add.commute)
  qed
  finally have e: "shannon_bits (p @ [c]) = log 2 (?n + 1) +
        (\<Sum>x\<in>set p. real (count_list p x) * log 2 ((?n + 1) / real (count_list p x)))" .
  have l: "0 \<le> log 2 (?n + 1)" by simp
  have m: "real (count_list p x) * log 2 (?n / real (count_list p x)) \<le>
           real (count_list p x) * log 2 ((?n + 1) / real (count_list p x))"
    if "x \<in> set p" for x
  proof -
    have c: "0 < real (count_list p x)" using count_list_pos [OF that] by simp
    have n: "0 < ?n" using that by (cases p) auto
    have "?n / real (count_list p x) \<le> (?n + 1) / real (count_list p x)"
      using c by (simp add: divide_right_mono)
    moreover have "0 < ?n / real (count_list p x)" using c n by simp
    ultimately have "log 2 (?n / real (count_list p x)) \<le> log 2 ((?n + 1) / real (count_list p x))"
      by (simp del: zero_less_divide_iff divide_le_cancel)
    then show ?thesis using c by (simp add: mult_left_mono)
  qed
  have "shannon_bits p \<le>
        (\<Sum>x\<in>set p. real (count_list p x) * log 2 ((?n + 1) / real (count_list p x)))"
    unfolding shannon_bits_alt by (rule sum_mono) (rule m)
  then show ?thesis using e l by linarith
qed

lemma push_if_pick: "push_if b x xs = xs @ pick b x"
  by (simp add: push_if_def pick_def)

lemma table_pick: "map snd (filter fst ((b, x) # t)) = pick b x @ map snd (filter fst t)"
  by (simp add: pick_def)

lemma pick_empty: "xs @ pick (length xs = 0) g = (if xs = [] then [g] else xs)"
  by (simp add: pick_def)

subsection \<open>Recommendations\<close>

lemma performAnalysis_lists:
  "recommendations (fst (performAnalysis this p)) =
     generateRecommendations p (fst (detectPatterns this p))
       (calculateStrength p (calculateEntropy p) (fst (detectPatterns this p)))"
  "securityIssues (fst (performAnalysis this p)) =
     identifySecurityIssues p (fst (detectPatterns this p))"
  by (simp_all add: performAnalysis_def Let_def split_def)

lemma class_eval:
  "isLower c = (97 \<le> (of_char c :: nat) \<and> (of_char c :: nat) \<le> 122)"
  "isUpper c = (65 \<le> (of_char c :: nat) \<and> (of_char c :: nat) \<le> 90)"
  "isDigit c = (48 \<le> (of_char c :: nat) \<and> (of_char c :: nat) \<le> 57)"
  by (simp_all add: isLower_def isUpper_def isDigit_def in_range_def less_eq_char_def)

lemma leet_password_flags:
  "fst (detectPatterns new_PasswordAnalyzer ''Kx@$!eoZ9mQw'') =
   \<lparr>keyboard = False, repeated = False, sequential = False, date = False,
    leet = True, dictionary = False, personal = False, count_true = 1\<rparr>"
  by code_simp

subsection \<open>The state of the analyzer object\<close>

lemma detectPatterns_stateless:
  assumes "stateless this"
  shows "snd (detectPatterns this p) = this"
proof -
  let ?cp = "commonPatterns this"
  have g: "\<not> global (keyboard_re ?cp)" "\<not> global (repeated_re ?cp)"
    "\<not> global (sequential_re ?cp)" "\<not> global (date_re ?cp)" "\<not> global (leet_re ?cp)"
    using assms by (simp_all add: stateless_def Let_def)
  have "snd (detectPatterns this p) =
        this\<lparr>commonPatterns := \<lparr>keyboard_re = keyboard_re ?cp, repeated_re = repeated_re ?cp,
                                  sequential_re = sequential_re ?cp, date_re = date_re ?cp,
                                  leet_re = leet_re ?cp\<rparr>\<rparr>"
    by (simp add: detectPatterns_def Let_def split_def RegExp_test_plain g)
  also have "\<dots> = this" by simp
  finally show ?thesis .
qed

lemma new_PasswordAnalyzer_stateless: "stateless new_PasswordAnalyzer"
  by (simp add: stateless_def new_PasswordAnalyzer_def literal_def)

text \<open>With the flag \<open>g\<close> a second \<open>test\<close> of the same string would not repeat the
  first: the object remembers where the first match ended.\<close>

lemma global_flag_keeps_state:
  "RegExp_test \<lparr>pattern = Lit ''a'', ignoreCase = False, global = True, lastIndex = 0\<rparr> ''a'' =
     (True, \<lparr>pattern = Lit ''a'', ignoreCase = False, global = True, lastIndex = 1\<rparr>)"
  "RegExp_test \<lparr>pattern = Lit ''a'', ignoreCase = False, global = True, lastIndex = 1\<rparr> ''a'' =
     (False, \<lparr>pattern = Lit ''a'', ignoreCase = False, global = True, lastIndex = 0\<rparr>)"
  by code_simp+

subsection \<open>Two passwords in double arithmetic\<close>

text \<open>
  \<open>Bk7#Zm9@Xp2$Lq\<close> and \<open>qwerty123!ZxB#\<close> have fourteen distinct characters of
  all four classes: the uniqueness is 100, the character set 94, and the Shannon and the
  NIST entropy are so far above 50 and 60 that their terms are 1 whatever the last bits
  of the logarithms are. The first has no pattern flag, the second the flags
  \<open>keyboard\<close> and \<open>sequential\<close>. Their scores are evaluated operation by
  operation.
\<close>

lemma dbl_eval_1: "dbl (7 / 10) = 3152519739159347 / 4503599627370496"
  using dbl_near [of "- 1" "7 / 10" 6305039478318694] by (simp add: powr_minus field_simps)

lemma dbl_eval_2: "dbl (3152519739159347 / 18014398509481984) = 3152519739159347 / 18014398509481984"
  using dbl_near [of "- 3" "3152519739159347 / 18014398509481984" 6305039478318694] by (simp add: powr_minus field_simps)

lemma dbl_eval_3: "dbl (5404319552844595 / 18014398509481984) = 5404319552844595 / 18014398509481984"
  using dbl_near [of "- 2" "5404319552844595 / 18014398509481984" 5404319552844595] by (simp add: powr_minus field_simps)

lemma dbl_eval_4: "dbl (4278419646001971 / 9007199254740992) = 4278419646001971 / 9007199254740992"
  using dbl_near [of "- 2" "4278419646001971 / 9007199254740992" 8556839292003942] by (simp add: powr_minus field_simps)

lemma dbl_eval_5: "dbl (5404319552844595 / 36028797018963968) = 5404319552844595 / 36028797018963968"
  using dbl_near [of "- 3" "5404319552844595 / 36028797018963968" 5404319552844595] by (simp add: powr_minus field_simps)

lemma dbl_eval_6: "dbl (22517998136852479 / 36028797018963968) = 5 / 8"
  using dbl_near [of "- 1" "22517998136852479 / 36028797018963968" 5629499534213120] by (simp add: powr_minus field_simps)

lemma dbl_eval_7: "dbl (3602879701896397 / 36028797018963968) = 3602879701896397 / 36028797018963968"
  using dbl_near [of "- 4" "3602879701896397 / 36028797018963968" 7205759403792794] by (simp add: powr_minus field_simps)

lemma dbl_eval_8: "dbl (26120877838748877 / 36028797018963968) = 6530219459687219 / 9007199254740992"
  using dbl_near [of "- 1" "26120877838748877 / 36028797018963968" 6530219459687219] by (simp add: powr_minus field_simps)

lemma dbl_eval_9: "dbl (29723757540645273 / 36028797018963968) = 3715469692580659 / 4503599627370496"
  using dbl_near [of "- 1" "29723757540645273 / 36028797018963968" 7430939385161318] by (simp add: powr_minus field_simps)

lemma dbl_eval_10: "dbl (33326637242541669 / 36028797018963968) = 8331659310635417 / 9007199254740992"
  using dbl_near [of "- 1" "33326637242541669 / 36028797018963968" 8331659310635417] by (simp add: powr_minus field_simps)

lemma dbl_eval_11: "dbl (8331659310635417 / 9007199254740992) = 8331659310635417 / 9007199254740992"
  using dbl_near [of "- 1" "8331659310635417 / 9007199254740992" 8331659310635417] by (simp add: powr_minus field_simps)

lemma dbl_eval_12: "dbl (208291482765885425 / 2251799813685248) = 185 / 2"
  using dbl_near [of 6 "208291482765885425 / 2251799813685248" 6509108836433920] by (simp add: powr_minus field_simps)

lemma dbl_eval_13: "dbl (5764607523034235 / 36028797018963968) = 5764607523034235 / 36028797018963968"
  using dbl_near [of "- 3" "5764607523034235 / 36028797018963968" 5764607523034235] by (simp add: powr_minus field_simps)

lemma dbl_eval_14: "dbl (27562029719507433 / 36028797018963968) = 3445253714938429 / 4503599627370496"
  using dbl_near [of "- 1" "27562029719507433 / 36028797018963968" 6890507429876858] by (simp add: powr_minus field_simps)

lemma dbl_eval_15: "dbl (86131342873460725 / 1125899906842624) = 5383208929591295 / 70368744177664"
  using dbl_near [of 6 "86131342873460725 / 1125899906842624" 5383208929591295] by (simp add: powr_minus field_simps)

lemmas dbl_evals = dbl_c25 dbl_c30 dbl_c15 dbl_c10 dbl_c08 dbl_1 dbl_100 dbl_eval_1 dbl_eval_2 dbl_eval_3 dbl_eval_4 dbl_eval_5 dbl_eval_6 dbl_eval_7 dbl_eval_8 dbl_eval_9 dbl_eval_10 dbl_eval_11 dbl_eval_12 dbl_eval_13 dbl_eval_14 dbl_eval_15


lemma min_saturated:
  assumes "c \<le> d" "0 < c"
  shows "Math_min (d_div (Num d) (Num c)) (Num 1) = Num 1"
proof -
  have q: "1 \<le> d / c" using assms by simp
  then have "dbl 1 \<le> dbl (d / c)" by (intro dbl_mono) simp_all
  then have g: "1 \<le> dbl (d / c)" by (simp add: dbl_1)
  have "rd (Num (d / c)) = PosInf \<or> rd (Num (d / c)) = Num (dbl (d / c))"
    using q by (intro rd_nonneg) simp
  then show ?thesis using g assms(2) by (auto simp: d_div_def Math_min_def)
qed

lemmas js_eval = d_add_def d_sub_def d_mul_def d_div_def lit_def rd_small Math_min_def Math_max_def
  js_sub_def

lemma shannon_bits_distinct:
  assumes "distinct p" "p \<noteq> []"
  shows "shannon_bits p = real (length p) * log 2 (real (length p))"
proof -
  let ?n = "real (length p)"
  have n: "0 < ?n" using assms(2) by simp
  have "count_list p c = 1" if "c \<in> set p" for c
    using that assms(1) by (induction p) auto
  then have "char_prob p c = 1 / ?n" if "c \<in> set p" for c
    using that by (simp add: char_prob_def)
  then have "(\<Sum>c\<in>set p. char_prob p c * log 2 (char_prob p c)) =
             (\<Sum>c\<in>set p. 1 / ?n * log 2 (1 / ?n))" by simp
  also have "\<dots> = real (card (set p)) * (1 / ?n * log 2 (1 / ?n))" by simp
  also have "\<dots> = log 2 (1 / ?n)" using n assms(1) by (simp add: distinct_card)
  also have "\<dots> = - log 2 ?n" using n by (simp add: log_divide)
  finally show ?thesis by (simp add: shannon_bits_def)
qed

lemma fourteen_distinct:
  assumes "distinct p" "length p = 14" "charset_size p = 94"
  shows "50 \<le> shannon_bits p"
    and "nist (calculateEntropy p) = Num (14 * log 2 94)" and "60 \<le> 14 * log 2 (94::real)"
proof -
  have ne: "p \<noteq> []" using assms(2) by auto
  have a: "log 2 ((14::real) ^ 14) = real 14 * log 2 14" by (rule log_nat_power) simp
  have b: "log 2 ((2::real) ^ 50) = real 50 * log 2 2" by (rule log_nat_power) simp
  have "log 2 ((2::real) ^ 50) \<le> log 2 ((14::real) ^ 14)" by (subst log_le_cancel_iff) simp_all
  then have "real 50 * log 2 2 \<le> real 14 * log 2 (14::real)" by (simp only: a b)
  then have "50 \<le> 14 * log 2 (14::real)" by simp
  then show "50 \<le> shannon_bits p" using assms by (simp add: shannon_bits_distinct [OF assms(1) ne])
  have "real ((94::nat) ^ 14) < double_limit" by (simp add: double_limit_def)
  then show "nist (calculateEntropy p) = Num (14 * log 2 94)"
    using assms by (simp add: calculateEntropy_nist [OF ne])
  have c: "log 2 ((94::real) ^ 14) = real 14 * log 2 94" by (rule log_nat_power) simp
  have d: "log 2 ((2::real) ^ 60) = real 60 * log 2 2" by (rule log_nat_power) simp
  have "log 2 ((2::real) ^ 60) \<le> log 2 ((94::real) ^ 14)" by (subst log_le_cancel_iff) simp_all
  then have "real 60 * log 2 2 \<le> real 14 * log 2 (94::real)" by (simp only: c d)
  then show "60 \<le> 14 * log 2 (94::real)" by simp
qed

lemma example_score_1:
  assumes "Math_min (d_div sh (Num 50)) (Num 1) = Num 1" "Math_min (d_div ni (Num 60)) (Num 1) = Num 1"
  shows "spec_final (spec_subtotal 14 sh 94 (Num 100) ni) 0 False =
         Num (8331659310635417 / 9007199254740992)"
  unfolding spec_final_def spec_subtotal_def Let_def assms
  by (simp add: js_eval dbl_evals dbl_0)

lemma example_score_2:
  assumes "Math_min (d_div sh (Num 50)) (Num 1) = Num 1" "Math_min (d_div ni (Num 60)) (Num 1) = Num 1"
  shows "spec_final (spec_subtotal 14 sh 94 (Num 100) ni) 2 False =
         Num (3445253714938429 / 4503599627370496)"
  unfolding spec_final_def spec_subtotal_def Let_def assms
  by (simp add: js_eval dbl_evals dbl_0)

lemma example_shown_1:
  "Math_round (d_mul (Num (8331659310635417 / 9007199254740992)) (Num 100)) = Num 93"
  "round (8331659310635417 / 9007199254740992 * 100 :: real) = 92"
  by (simp_all add: js_eval dbl_evals round_def)

lemma example_flags_1:
  "fst (detectPatterns new_PasswordAnalyzer ''Bk7#Zm9@Xp2$Lq'') =
   \<lparr>keyboard = False, repeated = False, sequential = False, date = False,
    leet = False, dictionary = False, personal = False, count_true = 0\<rparr>"
  by code_simp

lemma example_flags_2:
  "fst (detectPatterns new_PasswordAnalyzer ''qwerty123!ZxB#'') =
   \<lparr>keyboard = True, repeated = False, sequential = True, date = False,
    leet = False, dictionary = False, personal = False, count_true = 2\<rparr>"
  by code_simp

lemma example_charset:
  "charset_size ''Bk7#Zm9@Xp2$Lq'' = 94" "charset_size ''qwerty123!ZxB#'' = 94"
  by (simp_all add: charset_size_def class_eval other_char_def)

lemma example_strength:
  assumes "distinct p" "length p = 14" "charset_size p = 94"
  shows "score (calculateStrength p (calculateEntropy p) f) =
         spec_final (spec_subtotal 14 (Num (shannon_bits p)) 94 (Num 100) (Num (14 * log 2 94)))
           (count_true f) (dictionary f)"
proof -
  have ne: "p \<noteq> []" using assms(2) by auto
  show ?thesis
    by (simp add: calculateStrength_score calculateEntropy_shannon calculateEntropy_charset
        calculateEntropy_uniqueness calculateUniqueness_distinct [OF ne assms(1)]
        fourteen_distinct(2) [OF assms] assms)
qed

lemma example_distinct:
  "distinct ''Bk7#Zm9@Xp2$Lq''" "distinct ''qwerty123!ZxB#''"
  by simp_all

lemma saturated_terms:
  assumes "distinct p" "length p = 14" "charset_size p = 94"
  shows "Math_min (d_div (Num (shannon_bits p)) (Num 50)) (Num 1) = Num 1"
    and "Math_min (d_div (Num (14 * log 2 94)) (Num 60)) (Num 1) = Num 1"
  using fourteen_distinct(1,3) [OF assms] by (simp_all add: min_saturated)

lemma example_1:
  "score (strength (fst (performAnalysis new_PasswordAnalyzer ''Bk7#Zm9@Xp2$Lq''))) =
     Num (8331659310635417 / 9007199254740992)"
  "score_shown (fst (performAnalysis new_PasswordAnalyzer ''Bk7#Zm9@Xp2$Lq'')) = Num 93"
proof -
  let ?p = "''Bk7#Zm9@Xp2$Lq''"
  have l: "length ?p = 14" by simp
  have "score (calculateStrength ?p (calculateEntropy ?p) (fst (detectPatterns new_PasswordAnalyzer ?p))) =
        Num (8331659310635417 / 9007199254740992)"
    unfolding example_strength [OF example_distinct(1) l example_charset(1)] example_flags_1
    using saturated_terms [OF example_distinct(1) l example_charset(1)]
    by (simp add: example_score_1)
  then show "score (strength (fst (performAnalysis new_PasswordAnalyzer ?p))) =
     Num (8331659310635417 / 9007199254740992)"
    and "score_shown (fst (performAnalysis new_PasswordAnalyzer ?p)) = Num 93"
    by (simp_all only: performAnalysis_fields example_shown_1)
qed

lemma example_2:
  "score (strength (fst (performAnalysis new_PasswordAnalyzer ''qwerty123!ZxB#''))) =
     Num (3445253714938429 / 4503599627370496)"
proof -
  let ?p = "''qwerty123!ZxB#''"
  have l: "length ?p = 14" by simp
  have "score (calculateStrength ?p (calculateEntropy ?p) (fst (detectPatterns new_PasswordAnalyzer ?p))) =
        Num (3445253714938429 / 4503599627370496)"
    unfolding example_strength [OF example_distinct(2) l example_charset(2)] example_flags_2
    using saturated_terms [OF example_distinct(2) l example_charset(2)]
    by (simp add: example_score_2)
  then show ?thesis by (simp only: performAnalysis_fields)
qed

lemma example_2_real:
  "real_final (real_subtotal (length ''qwerty123!ZxB#'') (shannon_bits ''qwerty123!ZxB#'') 94 100
     (nist_part (nist (calculateEntropy ''qwerty123!ZxB#'')))) 2 False = 153 / 200"
proof -
  let ?p = "''qwerty123!ZxB#''"
  have l: "length ?p = 14" by simp
  note f = fourteen_distinct [OF example_distinct(2) l example_charset(2)]
  have a: "min (shannon_bits ?p / 50) 1 = 1" using f(1) by simp
  have b: "nist_part (nist (calculateEntropy ?p)) = 1" using f(3) by (simp add: f(2) nist_part_def)
  show ?thesis
    unfolding real_final_def real_subtotal_def Let_def a b by simp
qed

subsection \<open>Strings of UTF-16 code units\<close>





lemma unat_of_char: "unat (of_char c :: code_unit) = of_char c"
proof -
  have "(of_char c :: code_unit) = of_nat (of_char c)" by (simp only: of_nat_of_char)
  moreover have "(of_char c :: nat) < 65536"
    using nat_of_char_less_256 [of c] by linarith
  ultimately show ?thesis by (simp add: unat_of_nat del: of_nat_of_char)
qed


lemma of_char_small: "(of_char c :: code_unit) \<le> 0xFF"
proof -
  have "(of_char c :: nat) \<le> 255" using nat_of_char_less_256 [of c] by linarith
  then show ?thesis by (simp add: word_le_nat_alt unat_of_char)
qed







lemma list_ex_units: "list_ex P (units s) = (\<exists>c\<in>set s. P (of_char c))"
  by (simp add: units_def list_ex_iff)












subsection \<open>Crack times\<close>

lemma double_limit_pos: "0 < double_limit"
  by (simp add: double_limit_def)

lemma formatTime_PosInf: "formatTime PosInf = Templ PosInf ''years''"
  by (simp add: formatTime_def d_div_def rd_def signed_inf_def)

lemma d_div_PosInf: "0 < c \<Longrightarrow> d_div PosInf (Num c) = PosInf"
  by (simp add: d_div_def rd_def signed_inf_def)


text \<open>
  Two hundred and fifty-six times \<open>Aa1!\<close>: four characters, each a quarter of the
  1024, so the Shannon entropy is 2048 bits and the number of guesses \<open>2 ^ 1024\<close>.
\<close>

lemma count_list_concat_replicate:
  "count_list (concat (replicate n xs)) c = n * count_list xs c"
  by (induction n) (simp_all add: count_list_append)

lemma set_concat_replicate: "0 < n \<Longrightarrow> set (concat (replicate n xs)) = set xs"
  by (induction n) auto

lemma shannon_bits_repeated:
  "shannon_bits (concat (replicate 256 ''Aa1!'')) = 2048"
proof -
  let ?p = "concat (replicate 256 ''Aa1!'')"
  have s: "set ?p = set ''Aa1!''" by (rule set_concat_replicate) simp
  have l: "length ?p = 1024" by (simp add: length_concat_replicate)
  have "count_list ?p c = 256" if "c \<in> set ''Aa1!''" for c
    using that by (auto simp: count_list_concat_replicate)
  then have cp: "char_prob ?p c = 1 / 4" if "c \<in> set ''Aa1!''" for c
    using that by (simp add: char_prob_def l)
  have "log 2 ((2::real) ^ 2) = real 2 * log 2 2" by (rule log_nat_power) simp
  then have "log 2 (4::real) = 2" by simp
  then have lg: "log 2 (1 / 4 :: real) = - 2" by (simp add: log_divide)
  have "(\<Sum>c\<in>set ?p. char_prob ?p c * log 2 (char_prob ?p c)) =
        (\<Sum>c\<in>set ''Aa1!''. 1 / 4 * log 2 (1 / 4 :: real))"
    unfolding s by (simp only: cp cong: sum.cong)
  also have "\<dots> = real (card (set ''Aa1!'')) * (1 / 4 * log 2 (1 / 4 :: real))"
    by (simp only: sum_constant)
  also have "card (set ''Aa1!'') = 4" by simp
  finally have "(\<Sum>c\<in>set ?p. char_prob ?p c * log 2 (char_prob ?p c)) = - 2"
    by (simp add: lg)
  then show ?thesis by (simp only: shannon_bits_def l)
qed

lemma guesses_overflow: "Math_pow (Num 2) (d_div (Num 2048) (Num 2)) = PosInf"
proof -
  have "dbl 1024 = 1024"
    using dbl_near [of 10 1024 "2 ^ 52"] by (simp add: powr_minus field_simps)
  then have "d_div (Num 2048) (Num 2) = Num 1024"
    by (simp add: d_div_def rd_def overflow_def double_limit_def)
  moreover have "(2::real) powr 1024 = 2 ^ 1024" by (simp add: powr_realpow [symmetric])
  ultimately show ?thesis by (simp add: overflow_def double_limit_def)
qed

lemma estimate_overflow:
  "shannon e = Num 2048 \<Longrightarrow>
   estimateCrackTimes p e =
     \<lparr>online = Templ PosInf ''years'', offline_cpu = Templ PosInf ''years'',
      offline_gpu = Templ PosInf ''years''\<rparr>"
  by (simp add: estimateCrackTimes_def Let_def guesses_overflow d_div_PosInf formatTime_PosInf)

lemma formatTime_examples:
  "formatTime (Num (1 / 2)) = Instant"
  "formatTime (Num 45) = Templ (Num 45) ''seconds''"
  "formatTime (Num 90) = Templ (Num 2) ''minutes''"
proof -
  have "dbl (3 / 2) = 3 / 2"
    using dbl_near [of 0 "3 / 2" "3 * 2 ^ 51"] by (simp add: powr_minus field_simps)
  then have "\<lfloor>dbl (3 / 2) + 1 / 2\<rfloor> = 2" by (simp only:) simp
  then show "formatTime (Num (1 / 2)) = Instant" "formatTime (Num 45) = Templ (Num 45) ''seconds''"
    "formatTime (Num 90) = Templ (Num 2) ''minutes''"
    by (simp_all add: formatTime_def d_div_def rd_small)
qed

subsection \<open>The date expression\<close>

lemma last_char_append: "last_char (last_char pv u) v = last_char pv (u @ v)"
  by (simp add: last_char_def)

lemma reach_conc: "(\<Union>st' \<in> reach A st. reach B st') = reach (conc A B) st"
proof -
  obtain pv s cp where st: "st = (pv, s, cp)" by (cases st)
  show ?thesis
  proof (rule set_eqI, rule iffI)
    fix x assume "x \<in> (\<Union>st' \<in> reach A st. reach B st')"
    then obtain u t v t' where "s = u @ t" "u \<in> A" "t = v @ t'" "v \<in> B"
      and x: "x = (last_char (last_char pv u) v, t', cp)"
      unfolding st reach_def by auto
    then have "s = (u @ v) @ t'" "u @ v \<in> conc A B" by (auto simp: conc_def)
    then show "x \<in> reach (conc A B) st"
      unfolding st reach_def x last_char_append by blast
  next
    fix x assume "x \<in> reach (conc A B) st"
    then obtain u v t' where s: "s = (u @ v) @ t'" and uv: "u \<in> A" "v \<in> B"
      and x: "x = (last_char pv (u @ v), t', cp)"
      unfolding st reach_def conc_def by auto
    have 1: "(last_char pv u, v @ t', cp) \<in> reach A st"
      unfolding st reach_def using s uv by auto
    have 2: "x \<in> reach B (last_char pv u, v @ t', cp)"
      unfolding reach_def x using uv by (auto simp: last_char_append)
    show "x \<in> (\<Union>st' \<in> reach A st. reach B st')" using 1 2 by blast
  qed
qed

lemma reach_Un: "reach (A \<union> B) st = reach A st \<union> reach B st"
  by (cases st) (auto simp: reach_def)

lemma reach_Nil: "reach {[]} st = {st}"
  by (cases st) (auto simp: reach_def last_char_def)

lemma step_char_reach: "set (step_char P st) = reach {[c] | c. P c} st"
proof -
  obtain pv s cp where st: "st = (pv, s, cp)" by (cases st)
  show ?thesis unfolding st by (cases s) (auto simp: reach_def last_char_def)
qed

lemma funpow_reach:
  assumes "\<And>st. set (f st) = reach L st"
  shows "set (((\<lambda>sts. concat (map f sts)) ^^ n) [st]) = reach (lang_pow n L) st"
proof (induction n)
  case 0
  show ?case by (simp add: reach_Nil)
next
  case (Suc n)
  have "set (((\<lambda>sts. concat (map f sts)) ^^ Suc n) [st]) =
        (\<Union>st' \<in> set (((\<lambda>sts. concat (map f sts)) ^^ n) [st]). set (f st'))"
    by simp
  also have "\<dots> = (\<Union>st' \<in> reach (lang_pow n L) st. reach L st')"
    by (simp only: Suc.IH assms)
  also have "\<dots> = reach (lang_pow (Suc n) L) st"
    by (simp only: reach_conc lang_pow.simps)
  finally show ?case .
qed

lemma ms_plain: "plain r \<Longrightarrow> set (ms False r st) = reach (lang r) st"
proof (induction r arbitrary: st)
  case Eps
  show ?case by (simp add: reach_Nil)
next
  case (Cls neg rs)
  show ?case by (simp add: step_char_reach)
next
  case (Seq a b)
  then have a: "\<And>st. set (ms False a st) = reach (lang a) st"
    and b: "\<And>st. set (ms False b st) = reach (lang b) st" by simp_all
  have "set (ms False (Seq a b) st) = (\<Union>st' \<in> set (ms False a st). set (ms False b st'))"
    by simp
  also have "\<dots> = (\<Union>st' \<in> reach (lang a) st. reach (lang b) st')" by (simp only: a b)
  finally show ?case by (simp only: reach_conc lang.simps)
next
  case (Alt a b)
  then show ?case by (simp add: reach_Un)
next
  case (Opt a)
  then have "set (ms False (Opt a) st) = reach (lang a) st \<union> reach {[]} st"
    by (simp add: reach_Nil)
  then show ?case by (simp only: reach_Un lang.simps)
next
  case (Times n a)
  then have a: "\<And>st. set (ms False a st) = reach (lang a) st" by simp
  show ?case using funpow_reach [of "ms False a" "lang a" n st, OF a] by simp
qed simp_all

lemma ms_bounded:
  assumes "plain r"
  shows "set (ms False (Seq WordB (Seq r WordB)) (pv, s, cp)) =
         {(last_char pv w, t, cp) | w t. s = w @ t \<and> w \<in> lang r \<and> bnd pv s \<and> bnd (last_char pv w) t}"
proof (cases "bnd pv s")
  case False
  then show ?thesis by (simp add: bnd_def)
next
  case True
  have w: "set (ms False WordB (q, t, cp)) = (if bnd q t then {(q, t, cp)} else {})" for q t
    by (simp add: bnd_def)
  have "set (ms False (Seq WordB (Seq r WordB)) (pv, s, cp)) =
        (\<Union>st' \<in> reach (lang r) (pv, s, cp). set (ms False WordB st'))"
    using True by (simp add: bnd_def ms_plain [OF assms])
  also have "\<dots> = {(last_char pv w, t, cp) | w t. s = w @ t \<and> w \<in> lang r \<and> bnd (last_char pv w) t}"
  proof (rule set_eqI, rule iffI)
    fix x assume "x \<in> (\<Union>st' \<in> reach (lang r) (pv, s, cp). set (ms False WordB st'))"
    then obtain u t where "s = u @ t" "u \<in> lang r" "x \<in> set (ms False WordB (last_char pv u, t, cp))"
      unfolding reach_def by auto
    then show "x \<in> {(last_char pv w, t, cp) | w t. s = w @ t \<and> w \<in> lang r \<and> bnd (last_char pv w) t}"
      unfolding w by (auto split: if_splits)
  next
    fix x assume "x \<in> {(last_char pv w, t, cp) | w t. s = w @ t \<and> w \<in> lang r \<and> bnd (last_char pv w) t}"
    then obtain u t where u: "s = u @ t" "u \<in> lang r" "bnd (last_char pv u) t"
      and x: "x = (last_char pv u, t, cp)" by auto
    have "(last_char pv u, t, cp) \<in> reach (lang r) (pv, s, cp)"
      unfolding reach_def using u by auto
    moreover have "x \<in> set (ms False WordB (last_char pv u, t, cp))"
      unfolding w x using u(3) by simp
    ultimately show "x \<in> (\<Union>st' \<in> reach (lang r) (pv, s, cp). set (ms False WordB st'))"
      by blast
  qed
  finally show ?thesis using True by simp
qed

lemma matches_at_bounded:
  assumes "plain r"
  shows "matches_at False (Seq WordB (Seq r WordB)) pv s =
         (\<exists>w t. s = w @ t \<and> w \<in> lang r \<and> bnd pv s \<and> bnd (last_char pv w) t)"
proof -
  have "matches_at False (Seq WordB (Seq r WordB)) pv s =
        (set (ms False (Seq WordB (Seq r WordB)) (pv, s, None)) \<noteq> {})"
    unfolding matches_at_def by (simp only: set_empty)
  then show ?thesis unfolding ms_bounded [OF assms] by auto
qed

lemma matches_at_Alt:
  "matches_at ic (Alt a b) pv s = (matches_at ic a pv s \<or> matches_at ic b pv s)"
  by (simp add: matches_at_def)

lemma plain_Lit: "plain (Lit s)"
  by (induction s) (simp_all add: Lit_def Chr_def)

lemma plain_date_parts: "plain year_rx" "plain numeric_date_rx"
  by (simp_all add: year_rx_def numeric_date_rx_def first_rx_def second_rx_def third_rx_def
      sep_rx_def Digit_def Chr_def plain_Lit)

lemma found_date_rx:
  "found False date_rx p =
   (\<exists>pre w post. p = pre @ w @ post \<and> (w \<in> lang year_rx \<or> w \<in> lang numeric_date_rx) \<and>
      bnd (last_char None pre) (w @ post) \<and> bnd (last_char (last_char None pre) w) post)"
  unfolding found_def date_rx_def matches_at_Alt matches_at_bounded [OF plain_date_parts(1)]
    matches_at_bounded [OF plain_date_parts(2)]
  by blast

lemma conc_iff: "w \<in> conc A B \<longleftrightarrow> (\<exists>u v. w = u @ v \<and> u \<in> A \<and> v \<in> B)"
  by (auto simp: conc_def)

lemma in_range_same: "in_range x x c = (c = x)"
  by (auto simp: in_range_def)

lemma lang_Chr: "lang (Chr x) = {[x]}"
  by (auto simp: Chr_def cls_match_def in_ranges_def in_range_same)

lemma lang_Lit: "lang (Lit s) = {s}"
proof (induction s)
  case Nil
  show ?case by (simp add: Lit_def)
next
  case (Cons c s)
  have "Lit (c # s) = Seq (Chr c) (Lit s)" by (simp add: Lit_def)
  then have "lang (Lit (c # s)) = conc {[c]} {s}"
    by (simp only: lang.simps lang_Chr Cons)
  also have "\<dots> = {c # s}" by (auto simp: conc_def)
  finally show ?case .
qed

lemma lang_Digit: "lang Digit = {[c] | c. isDigit c}"
  by (simp add: Digit_def cls_match_def in_ranges_def isDigit_def)

lemma lang_pow_chars: "lang_pow n {[c] | c. P c} = {w. length w = n \<and> list_all P w}"
proof (induction n)
  case 0
  show ?case by auto
next
  case (Suc n)
  have "w \<in> conc {w. length w = n \<and> list_all P w} {[c] | c. P c} \<longleftrightarrow>
        length w = Suc n \<and> list_all P w" for w
  proof
    assume "w \<in> conc {w. length w = n \<and> list_all P w} {[c] | c. P c}"
    then obtain u c where "w = u @ [c]" "length u = n" "list_all P u" "P c"
      unfolding conc_iff by blast
    then show "length w = Suc n \<and> list_all P w" by simp
  next
    assume a: "length w = Suc n \<and> list_all P w"
    then obtain u c where w: "w = u @ [c]" by (cases w rule: rev_cases) auto
    then have "length u = n" "list_all P u" "P c" using a by simp_all
    then show "w \<in> conc {w. length w = n \<and> list_all P w} {[c] | c. P c}"
      unfolding conc_iff w by blast
  qed
  then have "conc {w. length w = n \<and> list_all P w} {[c] | c. P c} =
             {w. length w = Suc n \<and> list_all P w}" by blast
  then show ?case by (simp only: lang_pow.simps Suc)
qed

lemma lang_pow_digits: "lang_pow n (lang Digit) = {w. length w = n \<and> digits w}"
  using lang_pow_chars [of n isDigit] by (simp only: lang_Digit digits_def)

lemma lang_third_rx: "w \<in> lang third_rx \<longleftrightarrow> digits w \<and> (length w = 2 \<or> length w = 4)"
  by (auto simp: third_rx_def lang_pow_digits)

lemma lang_sep_rx: "lang sep_rx = {[c] | c. is_sep c}"
  by (auto simp: sep_rx_def cls_match_def in_ranges_def in_range_same is_sep_def)

lemma char_code_eq: "(c = d) = ((of_char c :: nat) = of_char d)"
  by simp

lemma digit_codes:
  "isDigit c = (48 \<le> (of_char c :: nat) \<and> (of_char c :: nat) \<le> 57)"
  "in_range (CHR ''1'') (CHR ''9'') c = (49 \<le> (of_char c :: nat) \<and> (of_char c :: nat) \<le> 57)"
  "in_range (CHR ''0'') (CHR ''2'') c = (48 \<le> (of_char c :: nat) \<and> (of_char c :: nat) \<le> 50)"
  "in_range (CHR ''0'') (CHR ''9'') c = (48 \<le> (of_char c :: nat) \<and> (of_char c :: nat) \<le> 57)"
  by (simp_all add: isDigit_def in_range_def less_eq_char_def)

lemma char_codes:
  "(c = CHR ''0'') = ((of_char c :: nat) = 48)"
  "(c = CHR ''1'') = ((of_char c :: nat) = 49)"
  "(c = CHR ''2'') = ((of_char c :: nat) = 50)"
  "(c = CHR ''3'') = ((of_char c :: nat) = 51)"
  "(c = CHR ''9'') = ((of_char c :: nat) = 57)"
  using char_code_eq [of c "CHR ''0''"] char_code_eq [of c "CHR ''1''"] char_code_eq [of c "CHR ''2''"]
    char_code_eq [of c "CHR ''3''"] char_code_eq [of c "CHR ''9''"]
  by simp_all

lemma len1: "(length w = 1) = (\<exists>a. w = [a])"
  by (auto simp: length_Suc_conv)

lemma len2: "(length w = 2) = (\<exists>a b. w = [a, b])"
  by (auto simp: length_Suc_conv numeral_2_eq_2)

lemma len4: "(length w = 4) = (\<exists>a b c d. w = [a, b, c, d])"
  by (auto simp: length_Suc_conv eval_nat_numeral)

lemma number_of_simps:
  "number_of [a] = digit_value a"
  "number_of [a, b] = 10 * digit_value a + digit_value b"
  "number_of [a, b, c, d] =
     1000 * digit_value a + 100 * digit_value b + 10 * digit_value c + digit_value d"
  by (simp_all add: number_of_def)

lemma digit_value_le: "isDigit c \<Longrightarrow> digit_value c \<le> 9"
  unfolding digit_value_def digit_codes by arith

lemma digit_char_iff:
  assumes "isDigit c"
  shows "(c = CHR ''0'') = (digit_value c = 0)" "(c = CHR ''1'') = (digit_value c = 1)"
    "(c = CHR ''2'') = (digit_value c = 2)" "(c = CHR ''3'') = (digit_value c = 3)"
    "(c = CHR ''9'') = (digit_value c = 9)"
  using assms unfolding digit_value_def digit_codes char_codes by arith+

lemma digit_range:
  "in_range (CHR ''1'') (CHR ''9'') c = (isDigit c \<and> 1 \<le> digit_value c)"
  "in_range (CHR ''0'') (CHR ''2'') c = (isDigit c \<and> digit_value c \<le> 2)"
  unfolding digit_value_def digit_codes by arith+

lemma digit_consts:
  "isDigit CHR ''0''" "isDigit CHR ''1''" "isDigit CHR ''2''" "isDigit CHR ''3''" "isDigit CHR ''9''"
  "digit_value CHR ''0'' = 0" "digit_value CHR ''1'' = 1" "digit_value CHR ''2'' = 2"
  "digit_value CHR ''3'' = 3" "digit_value CHR ''9'' = 9"
  by (simp_all add: digit_codes digit_value_def)

lemma year_digits:
  assumes "a \<le> 9" "b \<le> 9" "c \<le> 9" "d \<le> (9::nat)"
  shows "(1900 \<le> 1000 * a + 100 * b + 10 * c + d \<and> 1000 * a + 100 * b + 10 * c + d \<le> 2099) =
         ((a = 1 \<and> b = 9) \<or> (a = 2 \<and> b = 0))"
proof
  assume h: "1900 \<le> 1000 * a + 100 * b + 10 * c + d \<and> 1000 * a + 100 * b + 10 * c + d \<le> 2099"
  have "1 \<le> a" using h assms by linarith
  moreover have "a \<le> 2" using h by linarith
  ultimately have "a = 1 \<or> a = 2" by linarith
  then show "(a = 1 \<and> b = 9) \<or> (a = 2 \<and> b = 0)"
  proof
    assume a: "a = 1"
    then have "9 \<le> b" using h assms by linarith
    then show ?thesis using a assms by linarith
  next
    assume a: "a = 2"
    then have "b \<le> 0" using h by linarith
    then show ?thesis using a by linarith
  qed
next
  assume "(a = 1 \<and> b = 9) \<or> (a = 2 \<and> b = 0)"
  then show "1900 \<le> 1000 * a + 100 * b + 10 * c + d \<and> 1000 * a + 100 * b + 10 * c + d \<le> 2099"
    using assms by auto
qed

lemma lang_year_rx: "w \<in> lang year_rx \<longleftrightarrow> year_word w"
proof -
  have "w \<in> lang year_rx \<longleftrightarrow>
        (\<exists>u v. w = u @ v \<and> (u = ''19'' \<or> u = ''20'') \<and> length v = 2 \<and> digits v)"
    unfolding year_rx_def lang.simps conc_iff lang_Lit lang_pow_digits by blast
  also have "\<dots> \<longleftrightarrow>
        (\<exists>c d. isDigit c \<and> isDigit d \<and> (w = [CHR ''1'', CHR ''9'', c, d] \<or> w = [CHR ''2'', CHR ''0'', c, d]))"
  proof
    assume "\<exists>u v. w = u @ v \<and> (u = ''19'' \<or> u = ''20'') \<and> length v = 2 \<and> digits v"
    then obtain u v where uv: "w = u @ v" "u = ''19'' \<or> u = ''20''" "length v = 2" "digits v"
      by blast
    obtain c d where v: "v = [c, d]" using uv(3) unfolding len2 by blast
    have "isDigit c" "isDigit d" using uv(4) v by (simp_all add: digits_def)
    then show "\<exists>c d. isDigit c \<and> isDigit d \<and> (w = [CHR ''1'', CHR ''9'', c, d] \<or> w = [CHR ''2'', CHR ''0'', c, d])"
      using uv(1,2) v by auto
  next
    assume "\<exists>c d. isDigit c \<and> isDigit d \<and> (w = [CHR ''1'', CHR ''9'', c, d] \<or> w = [CHR ''2'', CHR ''0'', c, d])"
    then obtain c d where dg: "isDigit c" "isDigit d"
      and w: "w = [CHR ''1'', CHR ''9'', c, d] \<or> w = [CHR ''2'', CHR ''0'', c, d]" by blast
    have v: "length [c, d] = 2" "digits [c, d]" using dg by (simp_all add: digits_def)
    from w have "w = ''19'' @ [c, d] \<or> w = ''20'' @ [c, d]" by simp
    then show "\<exists>u v. w = u @ v \<and> (u = ''19'' \<or> u = ''20'') \<and> length v = 2 \<and> digits v"
      using v by blast
  qed
  also have "\<dots> \<longleftrightarrow> year_word w"
  proof
    assume "\<exists>c d. isDigit c \<and> isDigit d \<and> (w = [CHR ''1'', CHR ''9'', c, d] \<or> w = [CHR ''2'', CHR ''0'', c, d])"
    then obtain c d where dg: "isDigit c" "isDigit d"
      and w: "w = [CHR ''1'', CHR ''9'', c, d] \<or> w = [CHR ''2'', CHR ''0'', c, d]" by blast
    have le: "digit_value c \<le> 9" "digit_value d \<le> 9" using dg by (simp_all add: digit_value_le)
    from w show "year_word w"
    proof
      assume "w = [CHR ''1'', CHR ''9'', c, d]"
      then show ?thesis using dg le
        by (simp add: year_word_def digits_def number_of_simps digit_consts)
    next
      assume "w = [CHR ''2'', CHR ''0'', c, d]"
      then show ?thesis using dg le
        by (simp add: year_word_def digits_def number_of_simps digit_consts)
    qed
  next
    assume yw: "year_word w"
    then obtain a b c d where w: "w = [a, b, c, d]" unfolding year_word_def len4 by blast
    have dg: "isDigit a" "isDigit b" "isDigit c" "isDigit d"
      using yw unfolding w year_word_def digits_def by simp_all
    have n: "1900 \<le> 1000 * digit_value a + 100 * digit_value b + 10 * digit_value c + digit_value d \<and>
      1000 * digit_value a + 100 * digit_value b + 10 * digit_value c + digit_value d \<le> 2099"
      using yw unfolding w year_word_def by (simp add: number_of_simps)
    have "(digit_value a = 1 \<and> digit_value b = 9) \<or> (digit_value a = 2 \<and> digit_value b = 0)"
      using n year_digits [OF dg [THEN digit_value_le]] by blast
    then have "(a = CHR ''1'' \<and> b = CHR ''9'') \<or> (a = CHR ''2'' \<and> b = CHR ''0'')"
      using dg by (simp add: digit_char_iff)
    then show "\<exists>c d. isDigit c \<and> isDigit d \<and> (w = [CHR ''1'', CHR ''9'', c, d] \<or> w = [CHR ''2'', CHR ''0'', c, d])"
      using dg w by auto
  qed
  finally show ?thesis .
qed

lemma field_cases:
  "field hi w \<longleftrightarrow>
     (\<exists>a. w = [a] \<and> isDigit a \<and> 1 \<le> digit_value a \<and> digit_value a \<le> hi) \<or>
     (\<exists>a b. w = [a, b] \<and> isDigit a \<and> isDigit b \<and>
        1 \<le> 10 * digit_value a + digit_value b \<and> 10 * digit_value a + digit_value b \<le> hi)"
proof
  assume f: "field hi w"
  then have "length w = 1 \<or> length w = 2" by (simp add: field_def)
  then show "(\<exists>a. w = [a] \<and> isDigit a \<and> 1 \<le> digit_value a \<and> digit_value a \<le> hi) \<or>
     (\<exists>a b. w = [a, b] \<and> isDigit a \<and> isDigit b \<and>
        1 \<le> 10 * digit_value a + digit_value b \<and> 10 * digit_value a + digit_value b \<le> hi)"
  proof
    assume "length w = 1"
    then obtain a where "w = [a]" unfolding len1 by blast
    then show ?thesis using f by (simp add: field_def digits_def number_of_simps)
  next
    assume "length w = 2"
    then obtain a b where "w = [a, b]" unfolding len2 by blast
    then show ?thesis using f by (simp add: field_def digits_def number_of_simps)
  qed
next
  assume "(\<exists>a. w = [a] \<and> isDigit a \<and> 1 \<le> digit_value a \<and> digit_value a \<le> hi) \<or>
     (\<exists>a b. w = [a, b] \<and> isDigit a \<and> isDigit b \<and>
        1 \<le> 10 * digit_value a + digit_value b \<and> 10 * digit_value a + digit_value b \<le> hi)"
  then show "field hi w"
    by (auto simp: field_def digits_def number_of_simps)
qed

lemma two_digits_12:
  "a \<le> 9 \<Longrightarrow> b \<le> (9::nat) \<Longrightarrow>
   (1 \<le> 10 * a + b \<and> 10 * a + b \<le> 12) = ((a = 0 \<and> 1 \<le> b) \<or> (a = 1 \<and> b \<le> 2))"
  by arith

lemma two_digits_31:
  "a \<le> 9 \<Longrightarrow> b \<le> (9::nat) \<Longrightarrow>
   (1 \<le> 10 * a + b \<and> 10 * a + b \<le> 31) = ((a = 0 \<and> 1 \<le> b) \<or> a = 1 \<or> a = 2 \<or> (a = 3 \<and> b \<le> 1))"
  by arith

lemma lang_one_to_nine:
  "w \<in> lang (Seq (Opt (Chr CHR ''0'')) (Cls False [(CHR ''1'', CHR ''9'')])) \<longleftrightarrow>
   (\<exists>c. isDigit c \<and> 1 \<le> digit_value c \<and> (w = [c] \<or> w = [CHR ''0'', c]))"
proof -
  have "w \<in> lang (Seq (Opt (Chr CHR ''0'')) (Cls False [(CHR ''1'', CHR ''9'')])) \<longleftrightarrow>
        (\<exists>u v. w = u @ v \<and> (u = [CHR ''0''] \<or> u = []) \<and>
               (\<exists>c. v = [c] \<and> isDigit c \<and> 1 \<le> digit_value c))"
    unfolding lang.simps conc_iff lang_Chr
    by (simp add: cls_match_def in_ranges_def digit_range; blast)
  also have "\<dots> \<longleftrightarrow> (\<exists>c. isDigit c \<and> 1 \<le> digit_value c \<and> (w = [c] \<or> w = [CHR ''0'', c]))"
  proof
    assume "\<exists>u v. w = u @ v \<and> (u = [CHR ''0''] \<or> u = []) \<and>
               (\<exists>c. v = [c] \<and> isDigit c \<and> 1 \<le> digit_value c)"
    then show "\<exists>c. isDigit c \<and> 1 \<le> digit_value c \<and> (w = [c] \<or> w = [CHR ''0'', c])"
      by auto
  next
    assume "\<exists>c. isDigit c \<and> 1 \<le> digit_value c \<and> (w = [c] \<or> w = [CHR ''0'', c])"
    then obtain c where c: "isDigit c" "1 \<le> digit_value c" and w: "w = [c] \<or> w = [CHR ''0'', c]"
      by blast
    from w have "w = [] @ [c] \<or> w = [CHR ''0''] @ [c]" by simp
    then show "\<exists>u v. w = u @ v \<and> (u = [CHR ''0''] \<or> u = []) \<and>
               (\<exists>c. v = [c] \<and> isDigit c \<and> 1 \<le> digit_value c)"
      using c by blast
  qed
  finally show ?thesis .
qed

lemma lang_first_rx: "w \<in> lang first_rx \<longleftrightarrow> field 12 w"
proof -
  have "w \<in> lang (Seq (Chr CHR ''1'') (Cls False [(CHR ''0'', CHR ''2'')])) \<longleftrightarrow>
        (\<exists>c. isDigit c \<and> digit_value c \<le> 2 \<and> w = [CHR ''1'', c])"
    unfolding lang.simps conc_iff lang_Chr
    by (simp add: cls_match_def in_ranges_def digit_range; blast)
  then have l: "w \<in> lang first_rx \<longleftrightarrow>
        (\<exists>c. isDigit c \<and> 1 \<le> digit_value c \<and> (w = [c] \<or> w = [CHR ''0'', c])) \<or>
        (\<exists>c. isDigit c \<and> digit_value c \<le> 2 \<and> w = [CHR ''1'', c])"
    unfolding first_rx_def lang.simps(4) Un_iff lang_one_to_nine by simp
  show ?thesis
  proof
    assume "w \<in> lang first_rx"
    then consider c where "isDigit c" "1 \<le> digit_value c" "w = [c]"
      | c where "isDigit c" "1 \<le> digit_value c" "w = [CHR ''0'', c]"
      | c where "isDigit c" "digit_value c \<le> 2" "w = [CHR ''1'', c]"
      unfolding l by blast
    then show "field 12 w"
    proof cases
      case 1
      then show ?thesis using digit_value_le [of c] by (simp add: field_cases)
    next
      case 2
      then show ?thesis using digit_value_le [of c] by (simp add: field_cases digit_consts)
    next
      case 3
      then show ?thesis by (simp add: field_cases digit_consts)
    qed
  next
    assume "field 12 w"
    then consider a where "w = [a]" "isDigit a" "1 \<le> digit_value a"
      | a b where "w = [a, b]" "isDigit a" "isDigit b"
          "1 \<le> 10 * digit_value a + digit_value b \<and> 10 * digit_value a + digit_value b \<le> 12"
      unfolding field_cases by blast
    then show "w \<in> lang first_rx"
    proof cases
      case 1
      then show ?thesis unfolding l by blast
    next
      case 2
      have "(digit_value a = 0 \<and> 1 \<le> digit_value b) \<or> (digit_value a = 1 \<and> digit_value b \<le> 2)"
        using 2(4) two_digits_12 [OF digit_value_le [OF 2(2)] digit_value_le [OF 2(3)]] by blast
      then have "(a = CHR ''0'' \<and> 1 \<le> digit_value b) \<or> (a = CHR ''1'' \<and> digit_value b \<le> 2)"
        using 2(2) by (simp add: digit_char_iff)
      then show ?thesis unfolding l using 2(1,3) by blast
    qed
  qed
qed

lemma lang_ten_to_twenty_nine:
  "w \<in> lang (Seq (Cls False [(CHR ''1'', CHR ''1''), (CHR ''2'', CHR ''2'')]) Digit) \<longleftrightarrow>
        (\<exists>a b. (a = CHR ''1'' \<or> a = CHR ''2'') \<and> isDigit b \<and> w = [a, b])"
proof -
  have c: "lang (Cls False [(CHR ''1'', CHR ''1''), (CHR ''2'', CHR ''2'')]) =
           {[a] | a. a = CHR ''1'' \<or> a = CHR ''2''}"
    by (simp add: cls_match_def in_ranges_def in_range_same)
  show ?thesis unfolding lang.simps(3) conc_iff c lang_Digit
  proof
    assume "\<exists>u v. w = u @ v \<and> u \<in> {[a] |a. a = CHR ''1'' \<or> a = CHR ''2''} \<and> v \<in> {[c] |c. isDigit c}"
    then obtain u v where uv: "w = u @ v" "u \<in> {[a] |a. a = CHR ''1'' \<or> a = CHR ''2''}"
      "v \<in> {[c] |c. isDigit c}" by blast
    then obtain a b where "u = [a]" "a = CHR ''1'' \<or> a = CHR ''2''" "v = [b]" "isDigit b" by blast
    then show "\<exists>a b. (a = CHR ''1'' \<or> a = CHR ''2'') \<and> isDigit b \<and> w = [a, b]"
      using uv(1) by simp
  next
    assume "\<exists>a b. (a = CHR ''1'' \<or> a = CHR ''2'') \<and> isDigit b \<and> w = [a, b]"
    then obtain a b where ab: "a = CHR ''1'' \<or> a = CHR ''2''" "isDigit b" "w = [a] @ [b]"
      by (metis append_Cons append_Nil)
    then show "\<exists>u v. w = u @ v \<and> u \<in> {[a] |a. a = CHR ''1'' \<or> a = CHR ''2''} \<and> v \<in> {[c] |c. isDigit c}"
      by blast
  qed
qed

lemma lang_thirty:
  "w \<in> lang (Seq (Chr CHR ''3'') (Cls False [(CHR ''0'', CHR ''0''), (CHR ''1'', CHR ''1'')])) \<longleftrightarrow>
        (\<exists>b. (b = CHR ''0'' \<or> b = CHR ''1'') \<and> w = [CHR ''3'', b])"
proof -
  have c: "lang (Cls False [(CHR ''0'', CHR ''0''), (CHR ''1'', CHR ''1'')]) =
           {[a] | a. a = CHR ''0'' \<or> a = CHR ''1''}"
    by (simp add: cls_match_def in_ranges_def in_range_same)
  show ?thesis unfolding lang.simps(3) conc_iff c lang_Chr
  proof
    assume "\<exists>u v. w = u @ v \<and> u \<in> {[CHR ''3'']} \<and> v \<in> {[a] |a. a = CHR ''0'' \<or> a = CHR ''1''}"
    then obtain u v where uv: "w = u @ v" "u \<in> {[CHR ''3'']}"
      "v \<in> {[a] |a. a = CHR ''0'' \<or> a = CHR ''1''}" by blast
    then obtain b where "u = [CHR ''3'']" "b = CHR ''0'' \<or> b = CHR ''1''" "v = [b]" by blast
    then show "\<exists>b. (b = CHR ''0'' \<or> b = CHR ''1'') \<and> w = [CHR ''3'', b]"
      using uv(1) by simp
  next
    assume "\<exists>b. (b = CHR ''0'' \<or> b = CHR ''1'') \<and> w = [CHR ''3'', b]"
    then obtain b where ab: "b = CHR ''0'' \<or> b = CHR ''1''" "w = [CHR ''3''] @ [b]"
      by (metis append_Cons append_Nil)
    then show "\<exists>u v. w = u @ v \<and> u \<in> {[CHR ''3'']} \<and> v \<in> {[a] |a. a = CHR ''0'' \<or> a = CHR ''1''}"
      by blast
  qed
qed

lemma second_rx_alts:
  "w \<in> lang second_rx \<longleftrightarrow>
        (\<exists>c. isDigit c \<and> 1 \<le> digit_value c \<and> (w = [c] \<or> w = [CHR ''0'', c])) \<or>
        (\<exists>a b. (a = CHR ''1'' \<or> a = CHR ''2'') \<and> isDigit b \<and> w = [a, b]) \<or>
        (\<exists>b. (b = CHR ''0'' \<or> b = CHR ''1'') \<and> w = [CHR ''3'', b])"
  unfolding second_rx_def lang.simps(4) Un_iff lang_one_to_nine lang_ten_to_twenty_nine lang_thirty
  by (rule refl)

lemma second_rx_field:
  assumes "w \<in> lang second_rx"
  shows "field 31 w"
proof -
  from assms consider c where "isDigit c" "1 \<le> digit_value c" "w = [c]"
      | c where "isDigit c" "1 \<le> digit_value c" "w = [CHR ''0'', c]"
      | a b where "a = CHR ''1'' \<or> a = CHR ''2''" "isDigit b" "w = [a, b]"
      | b where "b = CHR ''0'' \<or> b = CHR ''1''" "w = [CHR ''3'', b]"
      unfolding second_rx_alts by blast
  then show "field 31 w"
  proof cases
    case 1
    then show ?thesis using digit_value_le [of c] by (simp add: field_cases)
  next
    case 2
    then show ?thesis using digit_value_le [of c] by (simp add: field_cases digit_consts)
  next
    case 3
    have le: "digit_value b \<le> 9" using 3(2) by (rule digit_value_le)
    from 3(1) show ?thesis
    proof
      assume "a = CHR ''1''"
      then show ?thesis using 3(2,3) le by (simp add: field_cases digit_consts)
    next
      assume "a = CHR ''2''"
      then show ?thesis using 3(2,3) le by (simp add: field_cases digit_consts)
    qed
  next
    case 4
    from 4(1) show ?thesis
    proof
      assume "b = CHR ''0''"
      then show ?thesis using 4(2) by (simp add: field_cases digit_consts)
    next
      assume "b = CHR ''1''"
      then show ?thesis using 4(2) by (simp add: field_cases digit_consts)
    qed
  qed
qed

lemma field_second_rx:
  assumes "field 31 w"
  shows "w \<in> lang second_rx"
proof -
  from assms consider a where "w = [a]" "isDigit a" "1 \<le> digit_value a"
      | a b where "w = [a, b]" "isDigit a" "isDigit b"
          "1 \<le> 10 * digit_value a + digit_value b \<and> 10 * digit_value a + digit_value b \<le> 31"
    unfolding field_cases by blast
  then show ?thesis
  proof cases
    case 1
    then show ?thesis unfolding second_rx_alts by blast
  next
    case 2
    have "(digit_value a = 0 \<and> 1 \<le> digit_value b) \<or> digit_value a = 1 \<or> digit_value a = 2 \<or>
          (digit_value a = 3 \<and> digit_value b \<le> 1)"
      using 2(4) two_digits_31 [OF digit_value_le [OF 2(2)] digit_value_le [OF 2(3)]] by blast
    moreover have "digit_value b \<le> 1 \<longleftrightarrow> digit_value b = 0 \<or> digit_value b = 1" by arith
    ultimately consider "a = CHR ''0''" "1 \<le> digit_value b" | "a = CHR ''1'' \<or> a = CHR ''2''"
      | "a = CHR ''3''" "b = CHR ''0'' \<or> b = CHR ''1''"
      unfolding digit_char_iff [OF 2(2)] digit_char_iff [OF 2(3)] by argo
    then show ?thesis
    proof cases
      case 1
      then have "isDigit b \<and> 1 \<le> digit_value b \<and> (w = [b] \<or> w = [CHR ''0'', b])"
        using 2(1,3) by simp
      then show ?thesis unfolding second_rx_alts by (intro disjI1 exI [of _ b])
    next
      case 2
      then have "(a = CHR ''1'' \<or> a = CHR ''2'') \<and> isDigit b \<and> w = [a, b]"
        using \<open>w = [a, b]\<close> \<open>isDigit b\<close> by simp
      then show ?thesis unfolding second_rx_alts by (intro disjI2 disjI1 exI [of _ a] exI [of _ b])
    next
      case 3
      then have "(b = CHR ''0'' \<or> b = CHR ''1'') \<and> w = [CHR ''3'', b]"
        using \<open>w = [a, b]\<close> by simp
      then show ?thesis unfolding second_rx_alts by (intro disjI2 exI [of _ b])
    qed
  qed
qed

lemma lang_second_rx: "w \<in> lang second_rx \<longleftrightarrow> field 31 w"
  using second_rx_field field_second_rx by blast

lemma lang_numeric_date_rx: "w \<in> lang numeric_date_rx \<longleftrightarrow> numeric_pattern 12 31 w"
proof
  assume "w \<in> lang numeric_date_rx"
  then obtain a r1 where 1: "w = a @ r1" "a \<in> lang first_rx"
      "r1 \<in> lang (Seq sep_rx (Seq second_rx (Seq sep_rx third_rx)))"
    unfolding numeric_date_rx_def lang.simps(3) [of first_rx] conc_iff by blast
  then obtain s1 r2 where 2: "r1 = [s1] @ r2" "is_sep s1"
      "r2 \<in> lang (Seq second_rx (Seq sep_rx third_rx))"
    unfolding lang.simps(3) [of sep_rx] conc_iff lang_sep_rx by blast
  then obtain b r3 where 3: "r2 = b @ r3" "b \<in> lang second_rx" "r3 \<in> lang (Seq sep_rx third_rx)"
    unfolding lang.simps(3) [of second_rx] conc_iff by blast
  then obtain s2 y where 4: "r3 = [s2] @ y" "is_sep s2" "y \<in> lang third_rx"
    unfolding lang.simps(3) [of sep_rx] conc_iff lang_sep_rx by blast
  have "w = a @ [s1] @ b @ [s2] @ y" using 1(1) 2(1) 3(1) 4(1) by simp
  then show "numeric_pattern 12 31 w"
    unfolding numeric_pattern_def
    using 1(2) 2(2) 3(2) 4(2,3) lang_first_rx lang_second_rx lang_third_rx by blast
next
  assume "numeric_pattern 12 31 w"
  then obtain a s1 b s2 y where w: "w = a @ [s1] @ b @ [s2] @ y"
    and f: "field 12 a" "is_sep s1" "field 31 b" "is_sep s2" "digits y" "length y = 2 \<or> length y = 4"
    unfolding numeric_pattern_def by blast
  have 4: "[s2] @ y \<in> lang (Seq sep_rx third_rx)"
    unfolding lang.simps(3) conc_iff lang_sep_rx using f(4,5,6) lang_third_rx by blast
  have 3: "b @ [s2] @ y \<in> lang (Seq second_rx (Seq sep_rx third_rx))"
    unfolding lang.simps(3) [of second_rx] conc_iff using 4 f(3) lang_second_rx by blast
  have 2: "[s1] @ b @ [s2] @ y \<in> lang (Seq sep_rx (Seq second_rx (Seq sep_rx third_rx)))"
    unfolding lang.simps(3) [of sep_rx] conc_iff lang_sep_rx using 3 f(2) by blast
  show "w \<in> lang numeric_date_rx"
    unfolding numeric_date_rx_def lang.simps(3) [of first_rx] conc_iff w
    using 2 f(1) lang_first_rx by blast
qed

lemma isDigit_isWord: "isDigit c \<Longrightarrow> isWord c"
  by (simp add: isWord_def)

lemma digits_ends: "digits w \<Longrightarrow> w \<noteq> [] \<Longrightarrow> isDigit (hd w) \<and> isDigit (last w)"
  by (simp add: digits_def list_all_iff)

lemma year_word_ends: "year_word w \<Longrightarrow> w \<noteq> [] \<and> isDigit (hd w) \<and> isDigit (last w)"
proof -
  assume y: "year_word w"
  then have "w \<noteq> []" by (auto simp: year_word_def)
  then show ?thesis using y digits_ends by (simp add: year_word_def)
qed

lemma field_ends: "field hi a \<Longrightarrow> a \<noteq> [] \<and> isDigit (hd a)"
proof -
  assume f: "field hi a"
  then have "a \<noteq> []" by (auto simp: field_def)
  then show ?thesis using f digits_ends by (simp add: field_def)
qed

lemma numeric_pattern_ends:
  "numeric_pattern hi1 hi2 w \<Longrightarrow> w \<noteq> [] \<and> isDigit (hd w) \<and> isDigit (last w)"
proof -
  assume "numeric_pattern hi1 hi2 w"
  then obtain a s1 b s2 y where w: "w = a @ [s1] @ b @ [s2] @ y"
    and f: "field hi1 a" "digits y" "length y = 2 \<or> length y = 4"
    unfolding numeric_pattern_def by blast
  have a: "a \<noteq> []" "isDigit (hd a)" using field_ends [OF f(1)] by simp_all
  have y: "y \<noteq> []" using f(3) by auto
  then have "isDigit (last y)" using digits_ends [OF f(2)] by simp
  then show ?thesis unfolding w using a y by simp
qed

lemma bnd_word:
  assumes "w \<noteq> []" "isDigit (hd w)" "isDigit (last w)"
  shows "(bnd (last_char None pre) (w @ post) \<and> bnd (last_char (last_char None pre) w) post) =
         standalone pre post"
proof -
  have 1: "first_char (w @ post) = Some (hd w)" using assms(1) by (cases w) (simp_all add: first_char_def)
  have 2: "last_char (last_char None pre) w = Some (last w)" using assms(1) by (simp add: last_char_def)
  have "isWordOpt (Some (hd w))" "isWordOpt (Some (last w))"
    using assms(2,3) by (simp_all add: isWordOpt_def isDigit_isWord)
  then show ?thesis unfolding bnd_def standalone_def 1 2 by simp
qed

lemma detectPatterns_date:
  "date (fst (detectPatterns new_PasswordAnalyzer p)) = found False date_rx p"
proof -
  have "date (fst (detectPatterns new_PasswordAnalyzer p)) =
        fst (RegExp_test (literal date_rx False) p)"
    by (simp add: detectPatterns_def new_PasswordAnalyzer_def Let_def split_def)
  then show ?thesis by (simp add: RegExp_test_plain literal_def)
qed

lemma day_month_year_example: "date_like 31 12 ''25/12/99''"
proof -
  have f1: "field 31 ''25''" and f2: "field 12 ''12''" and y: "digits ''99''"
    by (simp_all add: field_def digits_def number_of_def digit_value_def digit_codes)
  have "''25/12/99'' = ''25'' @ [CHR ''/''] @ ''12'' @ [CHR ''/''] @ ''99''" by simp
  then have n: "numeric_pattern 31 12 ''25/12/99''"
    unfolding numeric_pattern_def using f1 f2 y
    by (intro exI [of _ "''25''"] exI [of _ "CHR ''/''"] exI [of _ "''12''"] exI [of _ "''99''"])
      (simp add: is_sep_def)
  have s: "standalone [] []" by (simp add: standalone_def last_char_def first_char_def isWordOpt_def)
  have "''25/12/99'' = [] @ ''25/12/99'' @ []" by simp
  then show ?thesis unfolding date_like_def using n s by blast
qed

subsection \<open>The handler\<close>

lemma analyzePassword_Displayed:
  assumes "analyzePassword this input = (Displayed rep, this')"
  shows "trim input \<noteq> [] \<and> rep = fst (performAnalysis this (trim input))"
proof (cases "trim input = []")
  case True
  then show ?thesis using assms by (simp add: analyzePassword_def)
next
  case False
  then show ?thesis using assms by (auto simp: analyzePassword_def Let_def split_def)
qed

lemma displayed_score_in_unit_interval:
  assumes "analyzePassword this input = (Displayed rep, this')"
  shows "\<exists>r. score (strength rep) = Num r \<and> 0 \<le> r \<and> r \<le> 1"
proof -
  have t: "trim input \<noteq> []" and r: "rep = fst (performAnalysis this (trim input))"
    using analyzePassword_Displayed [OF assms] by simp_all
  show ?thesis
    unfolding r using t by (rule score_range)
qed

section \<open>The claims\<close>

text \<open>
  C1. The claim fails for the empty password: its score is NaN, which is neither at
  least 0 nor at most 1. And the integer shown is not the nearest integer of the exact
  product: for \<open>Bk7#Zm9@Xp2$Lq\<close> the score is the double \<open>0.9249999999999999\<close>, whose
  product with 100 rounds to the double \<open>92.5\<close>, so 93 is shown, while the nearest
  integer of the exact product is 92.
\<close>

theorem score_claim_fails:
  "score (strength (fst (performAnalysis new_PasswordAnalyzer []))) = NaN \<and>
   \<not> js_ge (score (strength (fst (performAnalysis new_PasswordAnalyzer [])))) (Num 0) \<and>
   \<not> js_ge (Num 1) (score (strength (fst (performAnalysis new_PasswordAnalyzer [])))) \<and>
   score (strength (fst (performAnalysis new_PasswordAnalyzer ''Bk7#Zm9@Xp2$Lq''))) =
     Num (8331659310635417 / 9007199254740992) \<and>
   score_shown (fst (performAnalysis new_PasswordAnalyzer ''Bk7#Zm9@Xp2$Lq'')) = Num 93 \<and>
   round (8331659310635417 / 9007199254740992 * 100 :: real) = 92"
proof -
  have n: "score (strength (fst (performAnalysis new_PasswordAnalyzer []))) = NaN"
    by (simp add: performAnalysis_fields empty_entropy empty_score)
  have g: "\<not> js_ge NaN (Num 0)" "\<not> js_ge (Num 1) NaN" by (simp_all add: js_ge_def)
  show ?thesis unfolding n by (intro conjI refl g example_1 example_shown_1(2))
qed

text \<open>
  C1, as amended. For every non-empty password the score is a finite number between 0
  and 1, and the integer shown is \<open>Math.round\<close> of the product of the score and 100
  as a double; it lies between 0 and 100.
\<close>

theorem score_in_unit_interval:
  assumes "password \<noteq> []"
  shows "\<exists>r n. score (strength (fst (performAnalysis this password))) = Num r \<and> 0 \<le> r \<and> r \<le> 1 \<and>
               score_shown (fst (performAnalysis this password)) =
                 Math_round (d_mul (Num r) (Num 100)) \<and>
               Math_round (d_mul (Num r) (Num 100)) = Num (of_int n) \<and> 0 \<le> n \<and> n \<le> 100"
proof -
  obtain r where r: "score (strength (fst (performAnalysis this password))) = Num r"
    "0 \<le> r" "r \<le> 1"
    using score_range [OF assms] by blast
  have "score_shown (fst (performAnalysis this password)) = Math_round (d_mul (Num r) (Num 100))"
    using r(1) by (simp add: performAnalysis_fields)
  then show ?thesis using r shown_range [OF r(2,3)] by blast
qed

theorem score_in_unit_interval_witness:
  "''Tr0ub4dor&3'' \<noteq> [] \<and>
   (\<exists>r n. score (strength (fst (performAnalysis new_PasswordAnalyzer ''Tr0ub4dor&3''))) = Num r \<and>
          0 \<le> r \<and> r \<le> 1 \<and>
          score_shown (fst (performAnalysis new_PasswordAnalyzer ''Tr0ub4dor&3'')) =
            Math_round (d_mul (Num r) (Num 100)) \<and>
          Math_round (d_mul (Num r) (Num 100)) = Num (of_int n) \<and> 0 \<le> n \<and> n \<le> 100)"
  using score_in_unit_interval [of "''Tr0ub4dor&3''" new_PasswordAnalyzer] by simp

text \<open>
  C2. Read over the reals, the formula of the claim is not the score: for
  \<open>qwerty123!ZxB#\<close> (length 14, character set 94, uniqueness 100, the flags
  \<open>keyboard\<close> and \<open>sequential\<close>, Shannon and NIST terms 1) the formula is
  \<open>0.925 - 0.16 = 0.765\<close>, and the score is the double \<open>0.7649999999999999\<close>
  below it.
\<close>

theorem score_differs_from_real_formula:
  "shannon (entropy (fst (performAnalysis new_PasswordAnalyzer ''qwerty123!ZxB#''))) =
     Num (shannon_bits ''qwerty123!ZxB#'') \<and>
   charset (entropy (fst (performAnalysis new_PasswordAnalyzer ''qwerty123!ZxB#''))) = 94 \<and>
   uniqueness (entropy (fst (performAnalysis new_PasswordAnalyzer ''qwerty123!ZxB#''))) = Num 100 \<and>
   count_true (patterns (fst (performAnalysis new_PasswordAnalyzer ''qwerty123!ZxB#''))) = 2 \<and>
   \<not> dictionary (patterns (fst (performAnalysis new_PasswordAnalyzer ''qwerty123!ZxB#''))) \<and>
   real_final (real_subtotal (length ''qwerty123!ZxB#'') (shannon_bits ''qwerty123!ZxB#'') 94 100
     (nist_part (nist (entropy (fst (performAnalysis new_PasswordAnalyzer ''qwerty123!ZxB#'')))))) 2 False =
     153 / 200 \<and>
   score (strength (fst (performAnalysis new_PasswordAnalyzer ''qwerty123!ZxB#''))) =
     Num (3445253714938429 / 4503599627370496) \<and>
   (3445253714938429 / 4503599627370496 :: real) < 153 / 200"
proof -
  let ?p = "''qwerty123!ZxB#''"
  let ?rep = "fst (performAnalysis new_PasswordAnalyzer ?p)"
  have e: "entropy ?rep = calculateEntropy ?p" by (simp only: performAnalysis_fields)
  have f1: "shannon (entropy ?rep) = Num (shannon_bits ?p)"
    by (simp only: e calculateEntropy_shannon)
  have f2: "charset (entropy ?rep) = 94"
    by (simp only: e calculateEntropy_charset example_charset)
  have "calculateUniqueness ?p = Num 100" by (rule calculateUniqueness_distinct) simp_all
  then have f3: "uniqueness (entropy ?rep) = Num 100"
    by (simp only: e calculateEntropy_uniqueness)
  have f4: "count_true (patterns ?rep) = 2" "\<not> dictionary (patterns ?rep)"
    by (simp_all add: performAnalysis_fields example_flags_2)
  have f5: "real_final (real_subtotal (length ?p) (shannon_bits ?p) 94 100
              (nist_part (nist (entropy ?rep)))) 2 False = 153 / 200"
    by (simp only: e example_2_real)
  have f6: "(3445253714938429 / 4503599627370496 :: real) < 153 / 200" by simp
  show ?thesis by (intro conjI f1 f2 f3 f4 f5 f6 example_2)
qed

text \<open>
  C2, as amended. For every password the score is the formula of the claim in the
  arithmetic of the program: the six terms (length, Shannon entropy, character set,
  uniqueness, NIST entropy, base) added from left to right, less 0.08 for each of the seven
  pattern flags that is true and never below 0, and times 0.3 when the dictionary flag is
  set, every operation rounded to a double. This holds of \<open>calculateStrength\<close> for
  any metrics and flags, in particular for those of the analysis.
\<close>

theorem strength_formula:
  "(let rep = fst (performAnalysis this password); e = entropy rep; f = patterns rep
    in count_true f = length (filter (\<lambda>b. b) [keyboard f, repeated f, sequential f, date f,
                                                leet f, dictionary f, personal f]) \<and>
       score (strength rep) =
         spec_final (spec_subtotal (length password) (shannon e) (charset e) (uniqueness e) (nist e))
           (count_true f) (dictionary f)) \<and>
   score (calculateStrength password e' f') =
     spec_final (spec_subtotal (length password) (shannon e') (charset e') (uniqueness e') (nist e'))
       (count_true f') (dictionary f')"
proof -
  have "count_true (fst (detectPatterns this password)) =
        (let f = fst (detectPatterns this password)
         in length (filter (\<lambda>b. b) [keyboard f, repeated f, sequential f, date f, leet f,
                                       dictionary f, personal f]))"
    by (rule detectPatterns_count)
  then show ?thesis
    by (simp add: Let_def performAnalysis_fields calculateStrength_score)
qed

text \<open>
  C3. The claim that the engine itself refuses the empty password fails:
  \<open>performAnalysis\<close> has no guard and raises nothing. On the empty string it divides
  0 by 0, so the uniqueness and the score it reports are NaN.
\<close>

theorem engine_accepts_empty_password:
  "uniqueness (entropy (fst (performAnalysis new_PasswordAnalyzer []))) = NaN \<and>
   score (strength (fst (performAnalysis new_PasswordAnalyzer []))) = NaN"
  by (simp add: performAnalysis_fields empty_entropy empty_score)

text \<open>
  C3, as amended. The guard is in \<open>analyzePassword\<close>: an input that is empty or all
  white space is refused with an alert, and no analysis runs. \<open>performAnalysis\<close>
  on the empty string returns a report: Shannon entropy 0 (no logarithm is taken), NIST
  entropy 0, character set size 0, and NaN for the uniqueness, the score and the integer
  shown.
\<close>

theorem empty_input_refused:
  assumes "list_all isWhiteSpace input"
  shows "analyzePassword this input = (Alert ''Please enter a password to analyze'', this) \<and>
         entropy (fst (performAnalysis this [])) =
           \<lparr>shannon = Num 0, nist = Num 0, charset = 0, uniqueness = NaN\<rparr> \<and>
         score (strength (fst (performAnalysis this []))) = NaN \<and>
         score_shown (fst (performAnalysis this [])) = NaN"
proof -
  have "trim input = []" using assms by (simp add: trim_empty_iff)
  then have "analyzePassword this input = (Alert ''Please enter a password to analyze'', this)"
    by (simp add: analyzePassword_def)
  then show ?thesis by (simp add: performAnalysis_fields empty_entropy empty_score empty_shown)
qed

theorem empty_input_refused_witness:
  "list_all isWhiteSpace ''  '' \<and>
   analyzePassword new_PasswordAnalyzer ''  '' =
     (Alert ''Please enter a password to analyze'', new_PasswordAnalyzer) \<and>
   entropy (fst (performAnalysis new_PasswordAnalyzer [])) =
     \<lparr>shannon = Num 0, nist = Num 0, charset = 0, uniqueness = NaN\<rparr> \<and>
   score (strength (fst (performAnalysis new_PasswordAnalyzer []))) = NaN \<and>
   score_shown (fst (performAnalysis new_PasswordAnalyzer [])) = NaN"
proof -
  have w: "list_all isWhiteSpace ''  ''" by (simp add: isWhiteSpace_def)
  show ?thesis using w empty_input_refused [OF w, of new_PasswordAnalyzer] by simp
qed

text \<open>
  C4. The claim reads the numeric pattern as day, month, year. \<open>25/12/99\<close> is such a
  date, and the date flag is false for it: the expression wants the month first. The
  numeric pattern has to stand alone as the year does: in \<open>x12/25/99\<close> a word character
  stands before it, and the flag is false.
\<close>

theorem day_month_year_not_detected:
  "date_like 31 12 ''25/12/99'' \<and>
   \<not> date (fst (detectPatterns new_PasswordAnalyzer ''25/12/99'')) \<and>
   \<not> date (fst (detectPatterns new_PasswordAnalyzer ''x12/25/99''))"
proof -
  have "\<not> date (fst (detectPatterns new_PasswordAnalyzer ''25/12/99''))" by code_simp
  moreover have "\<not> date (fst (detectPatterns new_PasswordAnalyzer ''x12/25/99''))" by code_simp
  ultimately show ?thesis using day_month_year_example by simp
qed

text \<open>
  C4, as amended. The date flag is true if and only if the password contains, standing
  alone between word boundaries, a four-digit year from 1900 to 2099 or a numeric
  pattern in the order month (1 to 12), day (1 to 31), year (two or four digits), with
  \<open>/\<close> or \<open>-\<close> as separators.
\<close>

theorem date_flag_month_day_year:
  "date (fst (detectPatterns new_PasswordAnalyzer password)) = date_like 12 31 password"
  unfolding detectPatterns_date
proof
  assume "found False date_rx password"
  then obtain pre w post where p: "password = pre @ w @ post"
    and w: "w \<in> lang year_rx \<or> w \<in> lang numeric_date_rx"
    and b: "bnd (last_char None pre) (w @ post) \<and> bnd (last_char (last_char None pre) w) post"
    unfolding found_date_rx by blast
  have yn: "year_word w \<or> numeric_pattern 12 31 w"
    using w lang_year_rx lang_numeric_date_rx by blast
  then have "w \<noteq> [] \<and> isDigit (hd w) \<and> isDigit (last w)"
    using year_word_ends numeric_pattern_ends by blast
  then have "standalone pre post" using b bnd_word by blast
  then show "date_like 12 31 password" unfolding date_like_def using p yn by blast
next
  assume "date_like 12 31 password"
  then obtain pre w post where p: "password = pre @ w @ post"
    and yn: "year_word w \<or> numeric_pattern 12 31 w" and s: "standalone pre post"
    unfolding date_like_def by blast
  have "w \<noteq> [] \<and> isDigit (hd w) \<and> isDigit (last w)"
    using yn year_word_ends numeric_pattern_ends by blast
  then have b: "bnd (last_char None pre) (w @ post) \<and> bnd (last_char (last_char None pre) w) post"
    using s bnd_word by blast
  have "w \<in> lang year_rx \<or> w \<in> lang numeric_date_rx"
    using yn lang_year_rx lang_numeric_date_rx by blast
  then show "found False date_rx password" unfolding found_date_rx using p b by blast
qed

theorem date_flag_month_day_year_witness:
  "date (fst (detectPatterns new_PasswordAnalyzer ''12/25/99'')) \<and> date_like 12 31 ''12/25/99''"
proof -
  have "date (fst (detectPatterns new_PasswordAnalyzer ''12/25/99''))" by code_simp
  then show ?thesis using date_flag_month_day_year [of "''12/25/99''"] by simp
qed

text \<open>
  C5. The claim that each of the seven flags has its advice fails: \<open>Kx@$!eoZ9mQw\<close> has
  the flag \<open>leet\<close> (for \<open>@$!eo\<close>), and the only recommendation is the message of
  praise.
\<close>

theorem leet_flag_gives_no_advice:
  "leet (fst (detectPatterns new_PasswordAnalyzer ''Kx@$!eoZ9mQw'')) \<and>
   recommendations (fst (performAnalysis new_PasswordAnalyzer ''Kx@$!eoZ9mQw'')) =
     [''Excellent password! Consider using a password manager'']"
  by (simp add: performAnalysis_lists leet_password_flags generateRecommendations_def push_if_def
      test_lower test_upper test_digit test_other other_char_def class_eval)

text \<open>
  C5, as amended. The recommendations are, in this order, the advice on the length
  (below 12), on a missing lower-case letter, upper-case letter, digit and special
  character, and then one advice for each true flag among \<open>repeated\<close>,
  \<open>sequential\<close>, \<open>keyboard\<close>, \<open>dictionary\<close> and \<open>date\<close>; the flags \<open>leet\<close> and
  \<open>personal\<close> trigger none. Without any advice the list is the one message of praise.
\<close>

theorem recommendations_priority_order:
  "generateRecommendations password f s = spec_recommendations password f"
proof -
  let ?R = "pick (length password < 12) ''Increase password length to at least 12 characters'' @
            pick (\<not> list_ex isLower password) ''Add lowercase letters'' @
            pick (\<not> list_ex isUpper password) ''Add uppercase letters'' @
            pick (\<not> list_ex isDigit password) ''Add numbers'' @
            pick (\<not> list_ex other_char password) ''Add special characters (!@#$%^&*)'' @
            pick (repeated f) ''Avoid repeated characters'' @
            pick (sequential f) ''Avoid sequential patterns'' @
            pick (keyboard f) ''Avoid keyboard patterns'' @
            pick (dictionary f) ''Avoid common dictionary words'' @
            pick (date f) ''Avoid dates and years''"
  have t: "map snd (filter fst (advice_table password f)) = ?R"
    unfolding advice_table_def by (simp only: table_pick list.map(1) filter.simps(1) append_Nil2)
  have g: "generateRecommendations password f s =
           ?R @ pick (length ?R = 0) ''Excellent password! Consider using a password manager''"
    unfolding generateRecommendations_def Let_def test_lower test_upper test_digit test_other
    by (simp only: push_if_pick append_Nil append_assoc)
  show ?thesis
    by (simp only: g t spec_recommendations_def Let_def pick_empty)
qed

text \<open>
  C6. The claim holds only while \<open>2 ^ (shannonEntropy / 2)\<close> is in the range of a
  double. For the 1024 characters of 256 times \<open>Aa1!\<close> the Shannon entropy is 2048,
  \<open>Math.pow\<close> returns \<open>Infinity\<close>, and all three estimates are the years branch
  with an infinite count, \<open>Infinity years\<close>, which is no number of years rounded to the
  nearest integer.
\<close>

theorem crack_times_overflow:
  "length (concat (replicate 256 ''Aa1!'')) = 1024 \<and>
   shannon (calculateEntropy (concat (replicate 256 ''Aa1!''))) = Num 2048 \<and>
   crackTimes (fst (performAnalysis new_PasswordAnalyzer (concat (replicate 256 ''Aa1!'')))) =
     \<lparr>online = Templ PosInf ''years'', offline_cpu = Templ PosInf ''years'',
      offline_gpu = Templ PosInf ''years''\<rparr>"
proof -
  let ?p = "concat (replicate 256 ''Aa1!'')"
  have s: "shannon (calculateEntropy ?p) = Num 2048"
    by (simp only: calculateEntropy_shannon shannon_bits_repeated)
  then show ?thesis
    by (simp add: performAnalysis_fields estimate_overflow length_concat_replicate)
qed

text \<open>
  C7. The analysis leaves the analyzer object as the constructor made it, so the report
  for a password is the same whatever was analysed before, and two analyses of the same
  password in a row return the same report.
\<close>

theorem analysis_deterministic:
  "snd (performAnalysis new_PasswordAnalyzer q) = new_PasswordAnalyzer \<and>
   fst (performAnalysis (snd (performAnalysis new_PasswordAnalyzer q)) p) =
     fst (performAnalysis new_PasswordAnalyzer p) \<and>
   fst (performAnalysis (snd (performAnalysis new_PasswordAnalyzer p)) p) =
     fst (performAnalysis new_PasswordAnalyzer p)"
proof -
  have "snd (performAnalysis new_PasswordAnalyzer x) = new_PasswordAnalyzer" for x
    by (simp add: performAnalysis_fields detectPatterns_stateless new_PasswordAnalyzer_stateless)
  then show ?thesis by simp
qed

text \<open>
  C8. Appending to a non-empty password a character that does not occur in it does not
  decrease the Shannon entropy the code computes, which is the entropy of the
  specification (\<open>shannon_bits\<close>).
\<close>

theorem shannon_append_new_char:
  assumes "p \<noteq> []" and "c \<notin> set p"
  shows "js_ge (calculateShannonEntropy (p @ [c])) (calculateShannonEntropy p) \<and>
         calculateShannonEntropy p = Num (shannon_bits p) \<and>
         calculateShannonEntropy (p @ [c]) = Num (shannon_bits (p @ [c])) \<and>
         shannon_bits p \<le> shannon_bits (p @ [c])"
  using shannon_bits_append [OF assms(2)]
  by (simp add: calculateShannonEntropy_eq js_ge_def not_less)

theorem shannon_append_new_char_witness:
  "''ab'' \<noteq> [] \<and> CHR ''c'' \<notin> set ''ab'' \<and>
   js_ge (calculateShannonEntropy (''ab'' @ [CHR ''c''])) (calculateShannonEntropy ''ab'') \<and>
   calculateShannonEntropy ''ab'' = Num (shannon_bits ''ab'') \<and>
   calculateShannonEntropy (''ab'' @ [CHR ''c'']) = Num (shannon_bits (''ab'' @ [CHR ''c''])) \<and>
   shannon_bits ''ab'' \<le> shannon_bits (''ab'' @ [CHR ''c''])"
proof -
  have h: "''ab'' \<noteq> []" "CHR ''c'' \<notin> set ''ab''" by simp_all
  show ?thesis using h shannon_append_new_char [OF h] by blast
qed



text \<open>
  C10. The character set size of a non-empty password lies between 10 and 94
  (\<open>charset_size_ge\<close>, \<open>charset_size_le\<close>), and its NIST entropy is
  \<open>length * log2 (charset)\<close> and positive as long as \<open>charset ^ length\<close> is in the
  range of a double (\<open>nist_entropy_in_range\<close>). The code takes the logarithm of the
  power, though, and the power overflows: for the 160 characters of forty times
  \<open>Aa1!\<close> the NIST entropy is infinite.
\<close>

theorem nist_entropy_overflow:
  "length (concat (replicate 40 ''Aa1!'')) = 160 \<and>
   charset (calculateEntropy (concat (replicate 40 ''Aa1!''))) = 94 \<and>
   nist (calculateEntropy (concat (replicate 40 ''Aa1!''))) = PosInf"
proof -
  let ?p = "concat (replicate 40 ''Aa1!'')"
  have l: "length ?p = 160" by (simp add: length_concat_replicate)
  have c: "charset_size ?p = 94"
    by (simp add: charset_size_def list_ex_concat_replicate isLower_def isUpper_def isDigit_def
        other_char_def in_range_def less_eq_char_def)
  have ne: "?p \<noteq> []" using l by auto
  have "double_limit \<le> real ((94::nat) ^ 160)" by (simp add: double_limit_def)
  then have "nist (calculateEntropy ?p) = PosInf"
    by (simp only: calculateEntropy_nist [OF ne] c l if_True)
  then show ?thesis using l c by (simp add: calculateEntropy_charset)
qed

end
